theory Spec2Isabelle
  imports Complex_Main "HOL-Library.Sublist" "HOL-Library.Log_Nat" "HOL-Library.Word"
begin

section \<open>Excel-to-CSV converter: the handlers of \<open>src/App.tsx\<close>\<close>

text \<open>
  The component keeps six pieces of React state and has two handlers,
  \<open>handleFolderSelect\<close> and \<open>handleConvert\<close>. Both are embedded here as functions
  on an explicit state record. Whatever a handler does to the outside world (state
  setters, file reads, calls into the spreadsheet and archive libraries, the download)
  is recorded, in program order, as a list of events.

  A JavaScript string is modelled as a \<^typ>\<open>string\<close>, one \<^typ>\<open>char\<close> per code
  unit; the model therefore covers strings whose code units are below 256, and the
  library functions below are written out for that range.
\<close>

subsection \<open>String functions of the JavaScript library\<close>

text \<open>\<open>String.prototype.toLowerCase\<close>: \<open>A\<close>--\<open>Z\<close>, and the capital letters of the
  Latin-1 block (\<open>U+00C0\<close>--\<open>U+00DE\<close> without the multiplication sign), move up by 32.\<close>

definition lower_unit :: "char \<Rightarrow> char" where
  "lower_unit c =
     (let n = (of_char c :: nat)
      in if (65 \<le> n \<and> n \<le> 90) \<or> (192 \<le> n \<and> n \<le> 222 \<and> n \<noteq> 215)
         then char_of (n + 32) else c)"

definition toLowerCase :: "string \<Rightarrow> string" where
  "toLowerCase s = map lower_unit s"

text \<open>\<open>s.endsWith(t)\<close>: the last \<open>length t\<close> code units of \<open>s\<close> are \<open>t\<close>.\<close>

definition endsWith :: "string \<Rightarrow> string \<Rightarrow> bool" where
  "endsWith s t = (length t \<le> length s \<and> drop (length s - length t) s = t)"

text \<open>\<open>String.prototype.trim\<close> strips white space and line terminators from both
  ends: tab, line feed, vertical tab, form feed, carriage return, space, no-break space.\<close>

definition is_white :: "char \<Rightarrow> bool" where
  "is_white c = ((of_char c :: nat) \<in> {9, 10, 11, 12, 13, 32, 160})"

definition trim :: "string \<Rightarrow> string" where
  "trim s = rev (dropWhile is_white (rev (dropWhile is_white s)))"

text \<open>\<open>s.split(sep)\<close> for a separator of one code unit; the result is never empty
  (\<open>"".split("/")\<close> is \<open>[""]\<close>).\<close>

fun split :: "char \<Rightarrow> string \<Rightarrow> string list" where
  "split sep [] = [[]]"
| "split sep (c # cs) =
     (if c = sep then [] # split sep cs
      else (case split sep cs of [] \<Rightarrow> [[c]] | p # ps \<Rightarrow> (c # p) # ps))"

text \<open>\<open>parts.join(sep)\<close>.\<close>

fun join :: "char \<Rightarrow> string list \<Rightarrow> string" where
  "join sep [] = []"
| "join sep [p] = p"
| "join sep (p # q # ps) = p @ sep # join sep (q # ps)"

text \<open>The regular expression \<open>/\.[^/.]+$/\<close>: a dot followed, up to the end of the
  string, by one or more code units that are neither a slash nor a dot. \<open>match_ext\<close>
  tries every start position from the left, as the matcher does, and returns the text
  in front of the match and the matched text.\<close>

definition not_slash_dot :: "char \<Rightarrow> bool" where
  "not_slash_dot c = (c \<noteq> CHR ''/'' \<and> c \<noteq> CHR ''.'')"

fun match_ext :: "string \<Rightarrow> (string \<times> string) option" where
  "match_ext [] = None"
| "match_ext (c # cs) =
     (if c = CHR ''.'' \<and> cs \<noteq> [] \<and> list_all not_slash_dot cs then Some ([], c # cs)
      else (case match_ext cs of None \<Rightarrow> None | Some (b, m) \<Rightarrow> Some (c # b, m)))"

text \<open>\<open>GetSubstitution\<close> of the language standard, for a pattern without capture groups:
  in a replacement string, \<open>$$\<close> stands for a dollar sign, \<open>$&\<close> for the matched text,
  \<open>$`\<close> for the text in front of the match and \<open>$'\<close> for the text behind it; any other
  dollar sign stands for itself.\<close>

fun getSubstitution :: "string \<Rightarrow> string \<Rightarrow> string \<Rightarrow> string \<Rightarrow> string" where
  "getSubstitution matched pre post [] = []"
| "getSubstitution matched pre post [c] = [c]"
| "getSubstitution matched pre post (c # d # ds) =
     (if c = CHR ''$'' \<and> d = CHR ''$'' then CHR ''$'' # getSubstitution matched pre post ds
      else if c = CHR ''$'' \<and> d = CHR ''&'' then matched @ getSubstitution matched pre post ds
      else if c = CHR ''$'' \<and> d = CHR 0x60 then pre @ getSubstitution matched pre post ds
      else if c = CHR ''$'' \<and> d = CHR 0x27 then post @ getSubstitution matched pre post ds
      else c # getSubstitution matched pre post (d # ds))"

text \<open>\<open>s.replace(/\.[^/.]+$/, replacement)\<close>: the first match is replaced; the
  pattern is anchored at the end, so nothing follows the match.\<close>

definition replace_ext :: "string \<Rightarrow> string \<Rightarrow> string" where
  "replace_ext s replacement =
     (case match_ext s of
        None \<Rightarrow> s
      | Some (pre, matched) \<Rightarrow> pre @ getSubstitution matched pre [] replacement)"

subsection \<open>Numbers: the progress percentage\<close>

text \<open>
  \<open>Math.round(((i + 1) / files.length) * 100)\<close> is computed on binary64 numbers. A
  finite double is a rational; \<open>fl64\<close> rounds a rational to the nearest double, ties to
  the even significand, for magnitudes in the normal range (every quotient of two array
  indices and its hundredfold lie there). \<open>ilog2 x\<close> is the exponent of the binade of \<open>x\<close>.
\<close>

definition ilog2 :: "rat \<Rightarrow> int" where
  "ilog2 x = (if 1 \<le> x then bitlen \<lfloor>x\<rfloor> - 1 else - bitlen (\<lceil>1 / x\<rceil> - 1))"

definition round_half_even :: "rat \<Rightarrow> int" where
  "round_half_even x =
     (let f = \<lfloor>x\<rfloor>; d = x - of_int f
      in if d < 1 / 2 then f else if 1 / 2 < d then f + 1 else if even f then f else f + 1)"

definition fl64 :: "rat \<Rightarrow> rat" where
  "fl64 x =
     (if x = 0 then 0
      else let u = 2 powi (ilog2 \<bar>x\<bar> - 52)
           in sgn x * of_int (round_half_even (\<bar>x\<bar> / u)) * u)"

text \<open>\<open>Math.round\<close>: the nearest integer, a tie going up.\<close>

definition Math_round :: "rat \<Rightarrow> int" where
  "Math_round x = \<lfloor>x + 1 / 2\<rfloor>"

definition progress_pct :: "nat \<Rightarrow> nat \<Rightarrow> nat" where
  "progress_pct i n = nat (Math_round (fl64 (fl64 (of_nat (i + 1) / of_nat n) * 100)))"

subsection \<open>Data\<close>

type_synonym bytes = "8 word list"

text \<open>A value thrown by a library call; \<open>message\<close> is absent for a thrown value that has
  no such property.\<close>

datatype js_error = JsError (message: "string option")

text \<open>A browser \<open>File\<close>. \<open>content\<close> is what \<open>arrayBuffer()\<close> settles to.\<close>

record File =
  name :: string
  webkitRelativePath :: string
  content :: "js_error + bytes"

text \<open>A workbook as the spreadsheet library returns it: the sheet names in file order
  and the sheets by name. The sheet type is left open.\<close>

record 'sheet WorkBook =
  SheetNames :: "string list"
  Sheets :: "string \<Rightarrow> 'sheet option"

text \<open>The libraries the component calls: \<open>XLSX.read\<close>, \<open>XLSX.utils.sheet_to_csv\<close>
  and \<open>generateAsync\<close> of the archive object. Their code is not part of the
  repository; each may throw.\<close>

record 'sheet env =
  XLSX_read :: "bytes \<Rightarrow> js_error + 'sheet WorkBook"
  sheet_to_csv :: "'sheet option \<Rightarrow> js_error + string"
  generateAsync :: "(string \<times> string) list \<Rightarrow> js_error + bytes"

text \<open>The React state of the component.\<close>

record app_state =
  files :: "File list"
  outputFolderName :: string
  isConverting :: bool
  progress :: nat
  error :: "string option"
  success :: bool

text \<open>What a handler does, in program order.\<close>

datatype event =
    SetIsConverting bool
  | SetError "string option"
  | SetSuccess bool
  | SetProgress nat
  | ArrayBuffer File
  | XLSXRead bytes
  | ZipFile string string
  | GenerateAsync "(string \<times> string) list"
  | SaveAs bytes string

text \<open>The archive object: its file entries by name, in insertion order. \<open>zip.file(path,
  content)\<close> adds an entry, or replaces the content of the entry of that name. The folder
  entries that the archive library adds for the directories of a path are left out;
  \<open>zip.file\<close> and \<open>saveAs\<close> are taken not to throw.\<close>

type_synonym zip = "(string \<times> string) list"

fun zip_file :: "string \<Rightarrow> string \<Rightarrow> zip \<Rightarrow> zip" where
  "zip_file path csv [] = [(path, csv)]"
| "zip_file path csv ((p, c) # z) =
     (if p = path then (path, csv) # z else (p, c) # zip_file path csv z)"

subsection \<open>\<open>handleFolderSelect\<close>\<close>

definition is_excel_name :: "string \<Rightarrow> bool" where
  "is_excel_name nm =
     (let name = toLowerCase nm in endsWith name ''.xlsx'' \<or> endsWith name ''.xls'')"

definition handleFolderSelect :: "File list option \<Rightarrow> app_state \<Rightarrow> app_state" where
  "handleFolderSelect selectedFiles st =
     (case selectedFiles of
        None \<Rightarrow> st
      | Some sel \<Rightarrow>
          let excelFiles = filter (\<lambda>file. is_excel_name (name file)) sel;
              st' = st\<lparr>files := excelFiles, error := None, success := False, progress := 0\<rparr>
          in if length excelFiles > 0
             then let firstFilePath = webkitRelativePath (hd excelFiles);
                      rootFolder = hd (split CHR ''/'' firstFilePath)
                  in if rootFolder \<noteq> [] then st'\<lparr>outputFolderName := rootFolder @ ''_csv''\<rparr>
                     else st'
             else st')"

subsection \<open>\<open>handleConvert\<close>\<close>

text \<open>\<open>pathParts[0] = newRoot\<close>: assignment to index 0 of an array (an empty array would
  grow to length one).\<close>

definition set_first :: "string \<Rightarrow> string list \<Rightarrow> string list" where
  "set_first newRoot pathParts = (case pathParts of [] \<Rightarrow> [newRoot] | p # ps \<Rightarrow> newRoot # ps)"

definition newPathBase :: "string \<Rightarrow> File \<Rightarrow> string" where
  "newPathBase newRoot file =
     join CHR ''/'' (set_first (trim newRoot) (split CHR ''/'' (webkitRelativePath file)))"

text \<open>The body of \<open>workbook.SheetNames.forEach\<close>, over the remaining sheet names. A
  throw inside the callback leaves the loop.\<close>

fun forEach_sheet ::
  "'sheet env \<Rightarrow> string \<Rightarrow> 'sheet WorkBook \<Rightarrow> string list \<Rightarrow> zip \<Rightarrow> (js_error + zip) \<times> event list"
where
  "forEach_sheet env base wb [] z = (Inr z, [])"
| "forEach_sheet env base wb (sheetName # rest) z =
     (case sheet_to_csv env (Sheets wb sheetName) of
        Inl e \<Rightarrow> (Inl e, [])
      | Inr csv \<Rightarrow>
          let newPathCsvSheet = replace_ext base (''_'' @ sheetName @ ''.csv'');
              (r, evs) = forEach_sheet env base wb rest (zip_file newPathCsvSheet csv z)
          in (r, ZipFile newPathCsvSheet csv # evs))"

text \<open>One iteration of the \<open>for\<close> loop, up to but without \<open>setProgress\<close>: the result
  is the archive object at the end of the iteration, or the value thrown, with the events of
  the iteration.\<close>

definition process_file ::
  "'sheet env \<Rightarrow> string \<Rightarrow> File \<Rightarrow> zip \<Rightarrow> (js_error + zip) \<times> event list"
where
  "process_file env newRoot file z =
     (case content file of
        Inl e \<Rightarrow> (Inl e, [ArrayBuffer file])
      | Inr data \<Rightarrow>
         (case XLSX_read env data of
            Inl e \<Rightarrow> (Inl e, [ArrayBuffer file, XLSXRead data])
          | Inr workbook \<Rightarrow>
              let base = newPathBase newRoot file
              in if length (SheetNames workbook) = 1
                 then let sheetName = hd (SheetNames workbook)
                      in (case sheet_to_csv env (Sheets workbook sheetName) of
                            Inl e \<Rightarrow> (Inl e, [ArrayBuffer file, XLSXRead data])
                          | Inr csv \<Rightarrow>
                              let newPathCsv = replace_ext base ''.csv''
                              in (Inr (zip_file newPathCsv csv z),
                                  [ArrayBuffer file, XLSXRead data, ZipFile newPathCsv csv]))
                 else let (r, evs) = forEach_sheet env base workbook (SheetNames workbook) z
                      in (r, ArrayBuffer file # XLSXRead data # evs)))"

text \<open>The \<open>for\<close> loop over \<open>files\<close>, from index \<open>i\<close>, with \<open>n = files.length\<close>. The
  React state and the events survive a throw; the archive object does not.\<close>

fun convert_files ::
  "'sheet env \<Rightarrow> string \<Rightarrow> nat \<Rightarrow> nat \<Rightarrow> File list \<Rightarrow> zip \<Rightarrow> app_state \<times> event list
     \<Rightarrow> (js_error + zip) \<times> app_state \<times> event list"
where
  "convert_files env newRoot n i [] z w = (Inr z, w)"
| "convert_files env newRoot n i (file # rest) z (st, tr) =
     (case process_file env newRoot file z of
        (Inl e, evs) \<Rightarrow> (Inl e, st, tr @ evs)
      | (Inr z', evs) \<Rightarrow>
          let p = progress_pct i n
          in convert_files env newRoot n (Suc i) rest z'
               (st\<lparr>progress := p\<rparr>, tr @ evs @ [SetProgress p]))"

text \<open>The \<open>catch\<close> and \<open>finally\<close> blocks.\<close>

definition error_text :: "js_error \<Rightarrow> string" where
  "error_text err =
     (case message err of
        None \<Rightarrow> ''An error occurred during conversion.''
      | Some m \<Rightarrow> if m = [] then ''An error occurred during conversion.'' else m)"

definition catch_finally :: "js_error \<Rightarrow> app_state \<times> event list \<Rightarrow> app_state \<times> event list" where
  "catch_finally err w =
     (case w of (st, tr) \<Rightarrow>
        (st\<lparr>error := Some (error_text err), isConverting := False\<rparr>,
         tr @ [SetError (Some (error_text err)), SetIsConverting False]))"

definition handleConvert :: "'sheet env \<Rightarrow> app_state \<Rightarrow> app_state \<times> event list" where
  "handleConvert env st =
     (if length (files st) = 0
      then (st\<lparr>error := Some ''Please select a folder containing Excel files first.''\<rparr>,
            [SetError (Some ''Please select a folder containing Excel files first.'')])
      else if trim (outputFolderName st) = []
      then (st\<lparr>error := Some ''Please provide an output folder name.''\<rparr>,
            [SetError (Some ''Please provide an output folder name.'')])
      else
        (case convert_files env (outputFolderName st) (length (files st)) 0 (files st) []
                (st\<lparr>isConverting := True, error := None, success := False, progress := 0\<rparr>,
                 [SetIsConverting True, SetError None, SetSuccess False, SetProgress 0]) of
           (Inl err, w) \<Rightarrow> catch_finally err w
         | (Inr z, st', tr) \<Rightarrow>
            (case generateAsync env z of
               Inl err \<Rightarrow> catch_finally err (st', tr @ [GenerateAsync z])
             | Inr zipBlob \<Rightarrow>
                 (st'\<lparr>success := True, isConverting := False\<rparr>,
                  tr @ [GenerateAsync z, SaveAs zipBlob (trim (outputFolderName st) @ ''.zip''),
                        SetSuccess True, SetIsConverting False]))))"

subsection \<open>Reading the events\<close>

text \<open>Projections of an event list: the values passed to \<open>setProgress\<close>, the files whose
  \<open>arrayBuffer\<close> was called, the paths passed to \<open>zip.file\<close>, and whether the archive was
  generated or a download started.\<close>

fun progress_events :: "event list \<Rightarrow> nat list" where
  "progress_events [] = []"
| "progress_events (SetProgress p # tr) = p # progress_events tr"
| "progress_events (ev # tr) = progress_events tr"

fun read_files :: "event list \<Rightarrow> File list" where
  "read_files [] = []"
| "read_files (ArrayBuffer f # tr) = f # read_files tr"
| "read_files (ev # tr) = read_files tr"

fun zip_entries :: "event list \<Rightarrow> (string \<times> string) list" where
  "zip_entries [] = []"
| "zip_entries (ZipFile p c # tr) = (p, c) # zip_entries tr"
| "zip_entries (ev # tr) = zip_entries tr"

text \<open>The archives passed to \<open>generateAsync\<close>, and the blobs and names passed to
  \<open>saveAs\<close>.\<close>

fun generated :: "event list \<Rightarrow> zip list" where
  "generated [] = []"
| "generated (GenerateAsync z # tr) = z # generated tr"
| "generated (ev # tr) = generated tr"

fun saved :: "event list \<Rightarrow> (bytes \<times> string) list" where
  "saved [] = []"
| "saved (SaveAs b n # tr) = (b, n) # saved tr"
| "saved (ev # tr) = saved tr"

fun delivers :: "event \<Rightarrow> bool" where
  "delivers (GenerateAsync z) = True"
| "delivers (SaveAs b n) = True"
| "delivers ev = False"

fun touches_files :: "event \<Rightarrow> bool" where
  "touches_files (ArrayBuffer f) = True"
| "touches_files (XLSXRead d) = True"
| "touches_files (ZipFile p c) = True"
| "touches_files ev = False"

text \<open>The events the loop itself can produce.\<close>

fun loop_event :: "event \<Rightarrow> bool" where
  "loop_event (ArrayBuffer f) = True"
| "loop_event (XLSXRead d) = True"
| "loop_event (ZipFile p c) = True"
| "loop_event (SetProgress p) = True"
| "loop_event ev = False"

text \<open>Every sheet the iteration passes to the serializer is serialised without a throw.\<close>

definition sheets_ok :: "'s env \<Rightarrow> 's WorkBook \<Rightarrow> bool" where
  "sheets_ok env wb =
     (if length (SheetNames wb) = 1 then \<not> isl (sheet_to_csv env (Sheets wb (hd (SheetNames wb))))
      else \<forall>s\<in>set (SheetNames wb). \<not> isl (sheet_to_csv env (Sheets wb s)))"

text \<open>A file is converted when its iteration of the loop ends without a throw; it fails
  to decode when its bytes are read and \<open>XLSX.read\<close> throws on them.\<close>

definition completes :: "'sheet env \<Rightarrow> File \<Rightarrow> bool" where
  "completes env file = (case fst (process_file env [] file []) of Inl e \<Rightarrow> False | Inr z \<Rightarrow> True)"

definition decode_fails :: "'sheet env \<Rightarrow> File \<Rightarrow> bool" where
  "decode_fails env file =
     (case content file of
        Inl e \<Rightarrow> False
      | Inr data \<Rightarrow> (case XLSX_read env data of Inl e \<Rightarrow> True | Inr wb \<Rightarrow> False))"

subsection \<open>Example inputs\<close>

text \<open>An environment for the examples. A sheet is represented by its CSV text; the
  decoder recognises five one-byte files.\<close>

definition example_read :: "bytes \<Rightarrow> js_error + string WorkBook" where
  "example_read data =
     (if data = [0] then Inr \<lparr>SheetNames = [], Sheets = Map.empty\<rparr>
      else if data = [1] then Inr \<lparr>SheetNames = [''Sheet1''], Sheets = [''Sheet1'' \<mapsto> ''a,b'']\<rparr>
      else if data = [2] then
        Inr \<lparr>SheetNames = [''Sheet1'', ''Sheet2''],
             Sheets = [''Sheet1'' \<mapsto> ''1,2'', ''Sheet2'' \<mapsto> ''3,4'']\<rparr>
      else if data = [3] then
        Inr \<lparr>SheetNames = [''$&'', ''Sheet2''],
             Sheets = [''$&'' \<mapsto> ''1,2'', ''Sheet2'' \<mapsto> ''3,4'']\<rparr>
      else if data = [4] then Inr \<lparr>SheetNames = [''Sheet1''], Sheets = [''Sheet1'' \<mapsto> ''x,y'']\<rparr>
      else Inl (JsError (Some ''Unsupported file'')))"

definition example_env :: "string env" where
  "example_env =
     \<lparr>XLSX_read = example_read,
      sheet_to_csv = (\<lambda>s. case s of None \<Rightarrow> Inl (JsError None) | Some t \<Rightarrow> Inr t),
      generateAsync = (\<lambda>z. Inr (map (\<lambda>e. of_nat (length (snd e))) z))\<rparr>"

definition example_file :: "string \<Rightarrow> string \<Rightarrow> 8 word \<Rightarrow> File" where
  "example_file nm path b = \<lparr>name = nm, webkitRelativePath = path, content = Inr [b]\<rparr>"

definition example_state :: "File list \<Rightarrow> string \<Rightarrow> app_state" where
  "example_state fs nm =
     \<lparr>files = fs, outputFolderName = nm, isConverting = False, progress = 0,
      error = None, success = False\<rparr>"

definition example_three :: "File list" where
  "example_three =
     [example_file ''a.xlsx'' ''A/a.xlsx'' 1, example_file ''bad.xlsx'' ''A/bad.xlsx'' 9,
      example_file ''c.xls'' ''A/sub/c.xls'' 2]"

definition example_report :: File where
  "example_report = example_file ''report.xlsx'' ''A/B/report.xlsx'' 1"

definition example_report_xls :: File where
  "example_report_xls = example_file ''report.xls'' ''A/B/report.xls'' 4"

definition example_empty :: File where
  "example_empty = example_file ''empty.xlsx'' ''A/empty.xlsx'' 0"

definition example_data :: "8 word \<Rightarrow> File" where
  "example_data b = example_file ''data.xlsx'' ''A/data.xlsx'' b"

definition example_many :: "nat \<Rightarrow> File list" where
  "example_many n =
     map (\<lambda>k. example_file (replicate (Suc k) CHR ''a'' @ ''.xlsx'')
                (''A/'' @ replicate (Suc k) CHR ''a'' @ ''.xlsx'') 1) [0..<n]"

definition example_good :: "File list" where
  "example_good = [example_report, example_data 2, example_empty]"

section \<open>Properties\<close>

subsection \<open>Strings and paths\<close>

lemma split_not_Nil [simp]: "split sep s \<noteq> []"
  by (induction s) (auto split: list.splits)

lemma split_no_sep: "sep \<notin> set p \<Longrightarrow> split sep p = [p]"
  by (induction p) auto

lemma split_segment: "sep \<notin> set p \<Longrightarrow> split sep (p @ sep # s) = p # split sep s"
  by (induction p) auto

lemma split_join:
  "ps \<noteq> [] \<Longrightarrow> \<forall>p\<in>set ps. sep \<notin> set p \<Longrightarrow> split sep (join sep ps) = ps"
  by (induction sep ps rule: join.induct) (auto simp: split_no_sep split_segment)

lemma join_Cons: "ps \<noteq> [] \<Longrightarrow> join sep (p # ps) = p @ sep # join sep ps"
  by (cases ps) auto

lemma join_snoc: "ps \<noteq> [] \<Longrightarrow> join sep (ps @ [q]) = join sep ps @ sep # q"
  by (induction sep ps rule: join.induct) (auto simp: join_Cons)

lemma match_ext_append:
  "ext \<noteq> [] \<Longrightarrow> list_all not_slash_dot ext \<Longrightarrow>
   match_ext (xs @ CHR ''.'' # ext) = Some (xs, CHR ''.'' # ext)"
  by (induction xs) (auto simp: not_slash_dot_def list_all_iff)

lemma getSubstitution_plain:
  "CHR ''$'' \<notin> set t \<Longrightarrow> getSubstitution m b a t = t"
  by (induction m b a t rule: getSubstitution.induct) auto

lemma replace_ext_append:
  "ext \<noteq> [] \<Longrightarrow> list_all not_slash_dot ext \<Longrightarrow> CHR ''$'' \<notin> set r \<Longrightarrow>
   replace_ext (xs @ CHR ''.'' # ext) r = xs @ r"
  by (simp add: replace_ext_def match_ext_append getSubstitution_plain)

lemma newPathBase_segments:
  assumes "webkitRelativePath file = join CHR ''/'' (seg0 # segs)"
    and "CHR ''/'' \<notin> set seg0" and "\<forall>p\<in>set segs. CHR ''/'' \<notin> set p"
  shows "newPathBase r file = join CHR ''/'' (trim r # segs)"
  using assms by (simp add: newPathBase_def set_first_def split_join)

subsection \<open>One file, and the loop over the files\<close>

lemma progress_events_append [simp]:
  "progress_events (xs @ ys) = progress_events xs @ progress_events ys"
  by (induction xs rule: progress_events.induct) auto

lemma read_files_append [simp]: "read_files (xs @ ys) = read_files xs @ read_files ys"
  by (induction xs rule: read_files.induct) auto

lemma zip_entries_append [simp]: "zip_entries (xs @ ys) = zip_entries xs @ zip_entries ys"
  by (induction xs rule: zip_entries.induct) auto

lemma zip_entries_ZipFile [simp]:
  "zip_entries (map (\<lambda>s. ZipFile (p s) (c s)) ss) = map (\<lambda>s. (p s, c s)) ss"
  by (induction ss) auto

lemma progress_events_ZipFile [simp]:
  "progress_events (map (\<lambda>s. ZipFile (p s) (c s)) ss) = []"
  by (induction ss) auto

lemma read_files_ZipFile [simp]: "read_files (map (\<lambda>s. ZipFile (p s) (c s)) ss) = []"
  by (induction ss) auto

lemma loop_event_ZipFile [simp]: "list_all loop_event (map (\<lambda>s. ZipFile (p s) (c s)) ss)"
  by (induction ss) auto

lemma loop_event_only:
  assumes "list_all loop_event evs"
  shows "\<not> list_ex delivers evs" "SetSuccess b \<notin> set evs" "SetIsConverting b \<notin> set evs"
    "SetError m \<notin> set evs"
  using assms by (induction evs) (auto elim: loop_event.elims)

lemma forEach_sheet_Inr:
  assumes "\<forall>s\<in>set ss. \<not> isl (sheet_to_csv env (Sheets wb s))"
  shows "forEach_sheet env base wb ss z =
    (Inr (fold (\<lambda>s. zip_file (replace_ext base (''_'' @ s @ ''.csv''))
                         (projr (sheet_to_csv env (Sheets wb s)))) ss z),
     map (\<lambda>s. ZipFile (replace_ext base (''_'' @ s @ ''.csv''))
                       (projr (sheet_to_csv env (Sheets wb s)))) ss)"
  using assms
  by (induction ss arbitrary: z) (auto split: sum.splits simp: Let_def)

lemma forEach_sheet_Inl:
  assumes "\<exists>s\<in>set ss. isl (sheet_to_csv env (Sheets wb s))"
  shows "\<exists>e evs. forEach_sheet env base wb ss z = (Inl e, evs) \<and> progress_events evs = []
     \<and> read_files evs = [] \<and> list_all loop_event evs"
  using assms
proof (induction ss arbitrary: z)
  case Nil
  then show ?case by simp
next
  case (Cons s ss)
  show ?case
  proof (cases "sheet_to_csv env (Sheets wb s)")
    case (Inl e)
    then show ?thesis by simp
  next
    case (Inr csv)
    with Cons.prems have "\<exists>s\<in>set ss. isl (sheet_to_csv env (Sheets wb s))" by auto
    from Cons.IH [OF this, of "zip_file (replace_ext base (''_'' @ s @ ''.csv'')) csv z"]
    obtain e evs where
      "forEach_sheet env base wb ss (zip_file (replace_ext base (''_'' @ s @ ''.csv'')) csv z) = (Inl e, evs)"
      "progress_events evs = []" "read_files evs = []" "list_all loop_event evs"
      by blast
    with Inr show ?thesis by (simp add: Let_def)
  qed
qed

lemma process_file_ok:
  assumes "content f = Inr d" "XLSX_read env d = Inr wb" "sheets_ok env wb"
  shows "process_file env r f z =
     (if length (SheetNames wb) = 1
      then (Inr (zip_file (replace_ext (newPathBase r f) ''.csv'')
                    (projr (sheet_to_csv env (Sheets wb (hd (SheetNames wb))))) z),
            [ArrayBuffer f, XLSXRead d,
             ZipFile (replace_ext (newPathBase r f) ''.csv'')
               (projr (sheet_to_csv env (Sheets wb (hd (SheetNames wb)))))])
      else (Inr (fold (\<lambda>s. zip_file (replace_ext (newPathBase r f) (''_'' @ s @ ''.csv''))
                         (projr (sheet_to_csv env (Sheets wb s)))) (SheetNames wb) z),
            ArrayBuffer f # XLSXRead d #
            map (\<lambda>s. ZipFile (replace_ext (newPathBase r f) (''_'' @ s @ ''.csv''))
                       (projr (sheet_to_csv env (Sheets wb s)))) (SheetNames wb)))"
proof (cases "length (SheetNames wb) = 1")
  case True
  with assms show ?thesis
    by (auto simp: process_file_def sheets_ok_def Let_def split: sum.splits)
next
  case False
  with assms have "\<forall>s\<in>set (SheetNames wb). \<not> isl (sheet_to_csv env (Sheets wb s))"
    by (simp add: sheets_ok_def)
  from forEach_sheet_Inr [OF this] False assms show ?thesis
    by (simp add: process_file_def Let_def)
qed

lemma process_file_throws:
  assumes "\<not> (\<exists>d wb. content f = Inr d \<and> XLSX_read env d = Inr wb \<and> sheets_ok env wb)"
  shows "\<exists>e evs. process_file env r f z = (Inl e, evs) \<and> progress_events evs = []
     \<and> read_files evs = [f] \<and> list_all loop_event evs"
proof (cases "content f")
  case (Inl e)
  then show ?thesis by (simp add: process_file_def)
next
  case (Inr d)
  show ?thesis
  proof (cases "XLSX_read env d")
    case (Inl e)
    with Inr show ?thesis by (simp add: process_file_def)
  next
    case wb: (Inr wb)
    with Inr assms have bad: "\<not> sheets_ok env wb" by simp
    show ?thesis
    proof (cases "length (SheetNames wb) = 1")
      case True
      with bad Inr wb show ?thesis
        by (auto simp: process_file_def sheets_ok_def Let_def split: sum.splits)
    next
      case False
      with bad have "\<exists>s\<in>set (SheetNames wb). isl (sheet_to_csv env (Sheets wb s))"
        by (simp add: sheets_ok_def)
      from forEach_sheet_Inl [OF this, of "newPathBase r f" z]
      obtain e evs where "forEach_sheet env (newPathBase r f) wb (SheetNames wb) z = (Inl e, evs)"
        "progress_events evs = []" "read_files evs = []" "list_all loop_event evs"
        by blast
      with False Inr wb show ?thesis
        by (simp add: process_file_def Let_def)
    qed
  qed
qed

lemma completes_iff:
  "completes env f \<longleftrightarrow> (\<exists>d wb. content f = Inr d \<and> XLSX_read env d = Inr wb \<and> sheets_ok env wb)"
proof (cases "\<exists>d wb. content f = Inr d \<and> XLSX_read env d = Inr wb \<and> sheets_ok env wb")
  case True
  then obtain d wb where "content f = Inr d" "XLSX_read env d = Inr wb" "sheets_ok env wb"
    by blast
  from process_file_ok [OF this, of "[]" "[]"] True show ?thesis
    by (simp add: completes_def split: if_splits)
next
  case False
  from process_file_throws [OF this, of "[]" "[]"] False show ?thesis
    by (auto simp: completes_def)
qed


lemma process_file_decode_fails:
  assumes "decode_fails env f"
  shows "\<exists>d e. content f = Inr d \<and> XLSX_read env d = Inl e
     \<and> process_file env r f z = (Inl e, [ArrayBuffer f, XLSXRead d])"
  using assms by (auto simp: decode_fails_def process_file_def split: sum.splits)

lemma decode_fails_not_completes: "decode_fails env f \<Longrightarrow> \<not> completes env f"
  by (auto simp: completes_iff decode_fails_def split: sum.splits)

lemma process_file_completes:
  assumes "completes env f"
  shows "\<exists>z' evs. process_file env r f z = (Inr z', evs) \<and> progress_events evs = []
     \<and> read_files evs = [f] \<and> list_all loop_event evs
     \<and> evs = snd (process_file env r f [])
     \<and> z' = fold (\<lambda>e. zip_file (fst e) (snd e)) (zip_entries evs) z"
proof -
  from assms obtain d wb where ok: "content f = Inr d" "XLSX_read env d = Inr wb" "sheets_ok env wb"
    by (auto simp: completes_iff)
  show ?thesis
    unfolding process_file_ok [OF ok]
    by (simp add: fold_map comp_def)
qed

lemma process_file_not_completes:
  assumes "\<not> completes env f"
  shows "\<exists>e evs. process_file env r f z = (Inl e, evs) \<and> progress_events evs = []
     \<and> read_files evs = [f] \<and> list_all loop_event evs"
  using assms process_file_throws [of f env r z] by (simp add: completes_iff)

lemma convert_files_append:
  "convert_files env r n i (pre @ rest) z w =
     (case convert_files env r n i pre z w of
        (Inl e, w') \<Rightarrow> (Inl e, w')
      | (Inr z', w') \<Rightarrow> convert_files env r n (i + length pre) rest z' w')"
proof (induction pre arbitrary: i z w)
  case Nil
  then show ?case by simp
next
  case (Cons f pre)
  obtain st tr where w: "w = (st, tr)" by (cases w)
  show ?case
    unfolding w by (simp add: Cons.IH Let_def split: prod.splits sum.splits)
qed

lemma convert_files_all_complete:
  assumes "\<forall>f\<in>set fs. completes env f"
  shows "\<exists>z' evs. convert_files env r n i fs z (st, tr) =
           (Inr z', st\<lparr>progress := last (progress st # map (\<lambda>j. progress_pct j n) [i..<i + length fs])\<rparr>,
            tr @ evs)
     \<and> progress_events evs = map (\<lambda>j. progress_pct j n) [i..<i + length fs]
     \<and> read_files evs = fs \<and> list_all loop_event evs
     \<and> zip_entries evs = concat (map (\<lambda>f. zip_entries (snd (process_file env r f []))) fs)
     \<and> z' = fold (\<lambda>e. zip_file (fst e) (snd e)) (zip_entries evs) z"
  using assms
proof (induction fs arbitrary: i z st tr)
  case Nil
  then show ?case by simp
next
  case (Cons f fs)
  from Cons.prems have "completes env f" by simp
  from process_file_completes [OF this, of r z]
  obtain z1 evs1 where step: "process_file env r f z = (Inr z1, evs1)"
    and e1: "progress_events evs1 = []" "read_files evs1 = [f]" "list_all loop_event evs1"
      "evs1 = snd (process_file env r f [])"
      "z1 = fold (\<lambda>e. zip_file (fst e) (snd e)) (zip_entries evs1) z"
    by blast
  let ?p = "progress_pct i n"
  from Cons.prems have rest_ok: "\<forall>g\<in>set fs. completes env g" by simp
  define M where "M = map (\<lambda>j. progress_pct j n) [Suc i..<Suc i + length fs]"
  from Cons.IH [OF rest_ok, of "Suc i" z1 "st\<lparr>progress := ?p\<rparr>" "tr @ evs1 @ [SetProgress ?p]"]
  obtain z' evs2 where rest:
      "convert_files env r n (Suc i) fs z1 (st\<lparr>progress := ?p\<rparr>, tr @ evs1 @ [SetProgress ?p]) =
         (Inr z', st\<lparr>progress := ?p\<rparr>\<lparr>progress := last (progress (st\<lparr>progress := ?p\<rparr>) # M)\<rparr>,
          (tr @ evs1 @ [SetProgress ?p]) @ evs2)"
    and e2: "progress_events evs2 = M"
      "read_files evs2 = fs" "list_all loop_event evs2"
      "zip_entries evs2 = concat (map (\<lambda>f. zip_entries (snd (process_file env r f []))) fs)"
      "z' = fold (\<lambda>e. zip_file (fst e) (snd e)) (zip_entries evs2) z1"
    unfolding M_def by blast
  have upt: "map (\<lambda>j. progress_pct j n) [i..<i + length (f # fs)] = ?p # M"
    unfolding M_def by (subst upt_rec) simp
  let ?evs = "evs1 @ SetProgress ?p # evs2"
  have first: "convert_files env r n i (f # fs) z (st, tr) =
      convert_files env r n (Suc i) fs z1 (st\<lparr>progress := ?p\<rparr>, tr @ evs1 @ [SetProgress ?p])"
    using step by (simp add: Let_def)
  have "convert_files env r n i (f # fs) z (st, tr) =
           (Inr z', st\<lparr>progress := last (progress st # map (\<lambda>j. progress_pct j n) [i..<i + length (f # fs)])\<rparr>,
            tr @ ?evs)"
    unfolding upt first rest by simp
  moreover have "progress_events ?evs = map (\<lambda>j. progress_pct j n) [i..<i + length (f # fs)]"
    unfolding upt using e1 e2 by simp
  moreover have "read_files ?evs = f # fs" using e1 e2 by simp
  moreover have "list_all loop_event ?evs" using e1 e2 by simp
  moreover have "zip_entries ?evs = concat (map (\<lambda>f. zip_entries (snd (process_file env r f []))) (f # fs))"
    using e1 e2 by simp
  moreover have "z' = fold (\<lambda>e. zip_file (fst e) (snd e)) (zip_entries ?evs) z"
    using e1 e2 by simp
  ultimately show ?case by blast
qed

lemma convert_files_throw_after:
  assumes "convert_files env r n i pre z w = (Inr z', st', tr')"
    and "process_file env r f z' = (Inl e, evs1)"
  shows "convert_files env r n i (pre @ f # post) z w = (Inl e, st', tr' @ evs1)"
  using assms by (simp add: convert_files_append)

lemma convert_files_some_throw:
  assumes "\<not> (\<forall>f\<in>set fs. completes env f)"
  shows "\<exists>e evs st'. convert_files env r n i fs z (st, tr) = (Inl e, st', tr @ evs)
     \<and> list_all loop_event evs"
proof -
  from assms obtain pre f post where fs: "fs = pre @ f # post"
    and pre: "\<forall>g\<in>set pre. completes env g" and f: "\<not> completes env f"
    using split_list_first_prop [of fs "\<lambda>f. \<not> completes env f"] by auto
  from convert_files_all_complete [OF pre, of r n i z st tr]
  obtain z' evs where run: "convert_files env r n i pre z (st, tr) =
       (Inr z', st\<lparr>progress := last (progress st # map (\<lambda>j. progress_pct j n) [i..<i + length pre])\<rparr>,
        tr @ evs)"
    and e: "list_all loop_event evs"
    by blast
  from process_file_not_completes [OF f, of r z']
  obtain err evs1 where f: "process_file env r f z' = (Inl err, evs1)"
    and e1: "list_all loop_event evs1"
    by blast
  from convert_files_throw_after [OF run f, of post] e e1 show ?thesis
    unfolding fs by auto
qed

subsection \<open>Validation\<close>

text \<open>
  C5. When the convert handler is called with an empty file list, or with an output
  folder name that is empty after trimming, it only reports a validation message: the
  one event is \<open>setError\<close>, and the state changes in its \<open>error\<close> field alone. So the
  run is never marked as converting, no file is read or decoded, no progress is set,
  and nothing is added to an archive, generated or downloaded.
\<close>

theorem handleConvert_validation:
  assumes "files st = [] \<or> trim (outputFolderName st) = []"
  shows "(\<exists>msg. handleConvert env st = (st\<lparr>error := Some msg\<rparr>, [SetError (Some msg)])
           \<and> msg = (if files st = [] then ''Please select a folder containing Excel files first.''
                    else ''Please provide an output folder name.''))
    \<and> SetIsConverting True \<notin> set (snd (handleConvert env st))
    \<and> progress_events (snd (handleConvert env st)) = []
    \<and> \<not> list_ex touches_files (snd (handleConvert env st))
    \<and> \<not> list_ex delivers (snd (handleConvert env st))
    \<and> isConverting (fst (handleConvert env st)) = isConverting st
    \<and> progress (fst (handleConvert env st)) = progress st"
  using assms by (auto simp: handleConvert_def)

theorem handleConvert_validation_witness:
  "trim (outputFolderName (example_state [example_file ''a.xlsx'' ''A/a.xlsx'' 1] ''  '')) = []
   \<and> handleConvert example_env (example_state [example_file ''a.xlsx'' ''A/a.xlsx'' 1] ''  '')
       = ((example_state [example_file ''a.xlsx'' ''A/a.xlsx'' 1] ''  '')
             \<lparr>error := Some ''Please provide an output folder name.''\<rparr>,
          [SetError (Some ''Please provide an output folder name.'')])"
  using handleConvert_validation
          [of "example_state [example_file ''a.xlsx'' ''A/a.xlsx'' 1] ''  ''" example_env]
  by (simp add: example_state_def trim_def is_white_def)

subsection \<open>Folder selection\<close>

lemma endsWith_suffix: "endsWith s t \<longleftrightarrow> suffix t s"
proof
  assume "endsWith s t"
  then have "s = take (length s - length t) s @ t"
    by (metis append_take_drop_id endsWith_def)
  then show "suffix t s"
    by (metis suffixI)
next
  assume "suffix t s"
  then obtain zs where "s = zs @ t"
    by (auto simp: suffix_def)
  then show "endsWith s t"
    by (simp add: endsWith_def)
qed

lemma files_handleFolderSelect:
  "files (handleFolderSelect (Some sel) st) = filter (\<lambda>f. is_excel_name (name f)) sel"
  by (simp add: handleFolderSelect_def Let_def)

lemma error_handleFolderSelect: "error (handleFolderSelect (Some sel) st) = None"
  by (simp add: handleFolderSelect_def Let_def)

lemma is_excel_name_suffix:
  "is_excel_name nm \<longleftrightarrow> suffix ''.xlsx'' (toLowerCase nm) \<or> suffix ''.xls'' (toLowerCase nm)"
  by (simp add: is_excel_name_def Let_def endsWith_suffix)

text \<open>
  C6. After a folder selection, the file list holds exactly the selected files whose
  lowercased name ends in \<open>.xlsx\<close> or \<open>.xls\<close>, in their order; the other files are
  dropped and no error is set.
\<close>

theorem handleFolderSelect_filter:
  "files (handleFolderSelect (Some sel) st)
     = filter (\<lambda>f. suffix ''.xlsx'' (toLowerCase (name f)) \<or> suffix ''.xls'' (toLowerCase (name f))) sel
   \<and> (f \<in> set (files (handleFolderSelect (Some sel) st))
     \<longleftrightarrow> f \<in> set sel \<and> (suffix ''.xlsx'' (toLowerCase (name f)) \<or> suffix ''.xls'' (toLowerCase (name f))))
   \<and> error (handleFolderSelect (Some sel) st) = None"
  by (simp add: files_handleFolderSelect error_handleFolderSelect is_excel_name_suffix)

theorem handleFolderSelect_filter_witness:
  "files (handleFolderSelect
       (Some [example_file ''a.XLSX'' ''A/a.XLSX'' 1, example_file ''notes.txt'' ''A/notes.txt'' 1,
              example_file ''b.xls'' ''A/B/b.xls'' 2, example_file ''c.xlsx.bak'' ''A/c.xlsx.bak'' 1])
       (example_state [] ''converted_csvs''))
     = [example_file ''a.XLSX'' ''A/a.XLSX'' 1, example_file ''b.xls'' ''A/B/b.xls'' 2]
   \<and> error (handleFolderSelect
       (Some [example_file ''a.XLSX'' ''A/a.XLSX'' 1, example_file ''notes.txt'' ''A/notes.txt'' 1,
              example_file ''b.xls'' ''A/B/b.xls'' 2, example_file ''c.xlsx.bak'' ''A/c.xlsx.bak'' 1])
       (example_state [] ''converted_csvs'')) = None"
proof -
  let ?sel = "[example_file ''a.XLSX'' ''A/a.XLSX'' 1, example_file ''notes.txt'' ''A/notes.txt'' 1,
              example_file ''b.xls'' ''A/B/b.xls'' 2, example_file ''c.xlsx.bak'' ''A/c.xlsx.bak'' 1]"
  let ?st = "example_state [] ''converted_csvs''"
  have n1: "is_excel_name ''a.XLSX''" by code_simp
  have n2: "\<not> is_excel_name ''notes.txt''" by code_simp
  have n3: "is_excel_name ''b.xls''" by code_simp
  have n4: "\<not> is_excel_name ''c.xlsx.bak''" by code_simp
  note inst = handleFolderSelect_filter [of ?sel ?st "example_file ''b.xls'' ''A/B/b.xls'' 2"]
  from inst have "files (handleFolderSelect (Some ?sel) ?st)
      = filter (\<lambda>f. is_excel_name (name f)) ?sel"
    by (simp only: is_excel_name_suffix)
  also have "\<dots> = [example_file ''a.XLSX'' ''A/a.XLSX'' 1, example_file ''b.xls'' ''A/B/b.xls'' 2]"
    by (simp add: example_file_def n1 n2 n3 n4)
  finally show ?thesis using inst by simp
qed

subsection \<open>The run as a whole\<close>

lemma handleConvert_runs:
  assumes "files st \<noteq> []" "trim (outputFolderName st) \<noteq> []"
  shows "handleConvert env st =
     (case convert_files env (outputFolderName st) (length (files st)) 0 (files st) []
                (st\<lparr>isConverting := True, error := None, success := False, progress := 0\<rparr>,
                 [SetIsConverting True, SetError None, SetSuccess False, SetProgress 0]) of
           (Inl err, w) \<Rightarrow> catch_finally err w
         | (Inr z, st', tr) \<Rightarrow>
            (case generateAsync env z of
               Inl err \<Rightarrow> catch_finally err (st', tr @ [GenerateAsync z])
             | Inr zipBlob \<Rightarrow>
                 (st'\<lparr>success := True, isConverting := False\<rparr>,
                  tr @ [GenerateAsync z, SaveAs zipBlob (trim (outputFolderName st) @ ''.zip''),
                        SetSuccess True, SetIsConverting False])))"
  using assms by (simp add: handleConvert_def)

lemma handleConvert_first_throw:
  assumes fs: "files st = pre @ g # post"
    and nm: "trim (outputFolderName st) \<noteq> []"
    and pre: "\<forall>h\<in>set pre. completes env h"
    and g: "\<not> completes env g"
  shows "\<exists>e evs z'. handleConvert env st =
      (st\<lparr>isConverting := False, error := Some (error_text e), success := False,
          progress := last (0 # map (\<lambda>j. progress_pct j (length (files st))) [0..<length pre])\<rparr>,
       [SetIsConverting True, SetError None, SetSuccess False, SetProgress 0] @ evs
         @ [SetError (Some (error_text e)), SetIsConverting False])
     \<and> progress_events evs = map (\<lambda>j. progress_pct j (length (files st))) [0..<length pre]
     \<and> read_files evs = pre @ [g] \<and> list_all loop_event evs
     \<and> fst (process_file env (outputFolderName st) g z') = Inl e"
proof -
  define n where "n = length (files st)"
  define r where "r = outputFolderName st"
  let ?st0 = "st\<lparr>isConverting := True, error := None, success := False, progress := 0\<rparr>"
  let ?tr0 = "[SetIsConverting True, SetError None, SetSuccess False, SetProgress 0]"
  let ?p = "last (0 # map (\<lambda>j. progress_pct j n) [0..<length pre])"
  from convert_files_all_complete [OF pre, of r n 0 "[]" ?st0 ?tr0]
  obtain z' evs where run: "convert_files env r n 0 pre [] (?st0, ?tr0) =
       (Inr z', ?st0\<lparr>progress := ?p\<rparr>, ?tr0 @ evs)"
    and e: "progress_events evs = map (\<lambda>j. progress_pct j n) [0..<length pre]"
      "read_files evs = pre" "list_all loop_event evs"
    by auto
  from process_file_not_completes [OF g, of r z']
  obtain err evs1 where step: "process_file env r g z' = (Inl err, evs1)"
    and e1: "progress_events evs1 = []" "read_files evs1 = [g]" "list_all loop_event evs1"
    by blast
  from fs have ne: "files st \<noteq> []" by auto
  have loop: "convert_files env r n 0 (files st) [] (?st0, ?tr0) =
      (Inl err, ?st0\<lparr>progress := ?p\<rparr>, (?tr0 @ evs) @ evs1)"
    unfolding fs by (rule convert_files_throw_after [OF run step])
  have "handleConvert env st =
      (st\<lparr>isConverting := False, error := Some (error_text err), success := False, progress := ?p\<rparr>,
       ?tr0 @ (evs @ evs1) @ [SetError (Some (error_text err)), SetIsConverting False])"
    unfolding handleConvert_runs [OF ne nm]
    unfolding n_def [symmetric] r_def [symmetric] loop
    by (simp add: catch_finally_def)
  moreover have "progress_events (evs @ evs1) = map (\<lambda>j. progress_pct j n) [0..<length pre]"
    using e e1 by simp
  moreover have "read_files (evs @ evs1) = pre @ [g]" using e e1 by simp
  moreover have "list_all loop_event (evs @ evs1)" using e e1 by simp
  moreover have "fst (process_file env r g z') = Inl err" using step by simp
  ultimately show ?thesis unfolding n_def r_def by blast
qed

lemma handleConvert_all_complete:
  assumes ne: "files st \<noteq> []"
    and nm: "trim (outputFolderName st) \<noteq> []"
    and ok: "\<forall>h\<in>set (files st). completes env h"
  shows "\<exists>evs z tl. handleConvert env st =
      (st\<lparr>isConverting := False,
          error := (case generateAsync env z of Inl e \<Rightarrow> Some (error_text e) | Inr b \<Rightarrow> None),
          success := \<not> isl (generateAsync env z),
          progress := progress_pct (length (files st) - 1) (length (files st))\<rparr>,
       [SetIsConverting True, SetError None, SetSuccess False, SetProgress 0] @ evs
         @ GenerateAsync z # tl)
     \<and> tl = (case generateAsync env z of
               Inl e \<Rightarrow> [SetError (Some (error_text e)), SetIsConverting False]
             | Inr b \<Rightarrow> [SaveAs b (trim (outputFolderName st) @ ''.zip''), SetSuccess True,
                         SetIsConverting False])
     \<and> progress_events evs = map (\<lambda>j. progress_pct j (length (files st))) [0..<length (files st)]
     \<and> read_files evs = files st \<and> list_all loop_event evs
     \<and> zip_entries evs =
          concat (map (\<lambda>f. zip_entries (snd (process_file env (outputFolderName st) f []))) (files st))
     \<and> z = fold (\<lambda>e. zip_file (fst e) (snd e)) (zip_entries evs) []"
proof -
  define n where "n = length (files st)"
  define r where "r = outputFolderName st"
  let ?st0 = "st\<lparr>isConverting := True, error := None, success := False, progress := 0\<rparr>"
  let ?tr0 = "[SetIsConverting True, SetError None, SetSuccess False, SetProgress 0]"
  let ?M = "map (\<lambda>j. progress_pct j n) [0..<n]"
  from convert_files_all_complete [OF ok, of r n 0 "[]" ?st0 ?tr0]
  obtain z evs where run: "convert_files env r n 0 (files st) [] (?st0, ?tr0) =
       (Inr z, ?st0\<lparr>progress := last (0 # ?M)\<rparr>, ?tr0 @ evs)"
    and e: "progress_events evs = ?M"
      "read_files evs = files st" "list_all loop_event evs"
      "zip_entries evs = concat (map (\<lambda>f. zip_entries (snd (process_file env r f []))) (files st))"
      "z = fold (\<lambda>e. zip_file (fst e) (snd e)) (zip_entries evs) []"
    unfolding n_def by auto
  from ne have "0 < n" by (simp add: n_def)
  then have last: "last (0 # ?M) = progress_pct (n - 1) n"
    by (cases n) (simp_all add: last_map)
  have "handleConvert env st =
      (st\<lparr>isConverting := False,
          error := (case generateAsync env z of Inl e \<Rightarrow> Some (error_text e) | Inr b \<Rightarrow> None),
          success := \<not> isl (generateAsync env z),
          progress := progress_pct (n - 1) n\<rparr>,
       ?tr0 @ evs @ GenerateAsync z #
         (case generateAsync env z of
               Inl e \<Rightarrow> [SetError (Some (error_text e)), SetIsConverting False]
             | Inr b \<Rightarrow> [SaveAs b (trim (outputFolderName st) @ ''.zip''), SetSuccess True,
                         SetIsConverting False]))"
    unfolding handleConvert_runs [OF ne nm]
    unfolding n_def [symmetric] r_def [symmetric] run last
    by (simp add: catch_finally_def split: sum.splits)
  with e show ?thesis unfolding n_def r_def by blast
qed

subsection \<open>A file that fails to decode\<close>

text \<open>
  C3. In a run (non-blank folder name) in which some file \<open>f\<close> fails to decode, the
  loop stops at the first file \<open>g\<close> whose iteration throws, which is \<open>f\<close> or a file in
  front of it. The files read are those up to and including \<open>g\<close>, so no file behind
  the failing one is touched; the progress values set are the reset to 0 and one value
  for each file in front of \<open>g\<close>, and the last of them is the progress left in the
  state. The run ends with an error message, not converting and without success; the
  archive is never generated and nothing is downloaded. When \<open>g\<close> is \<open>f\<close> itself, the
  message is that of the decoder's error.
\<close>

theorem handleConvert_decode_failure:
  assumes f: "f \<in> set (files st)" "decode_fails env f"
    and nm: "trim (outputFolderName st) \<noteq> []"
  shows "\<exists>pre g post.
       files st = pre @ g # post \<and> f \<in> set (g # post)
     \<and> (\<forall>h\<in>set pre. completes env h) \<and> \<not> completes env g
     \<and> read_files (snd (handleConvert env st)) = pre @ [g]
     \<and> progress_events (snd (handleConvert env st))
          = 0 # map (\<lambda>j. progress_pct j (length (files st))) [0..<length pre]
     \<and> progress (fst (handleConvert env st))
          = last (0 # map (\<lambda>j. progress_pct j (length (files st))) [0..<length pre])
     \<and> error (fst (handleConvert env st)) \<noteq> None
     \<and> \<not> success (fst (handleConvert env st))
     \<and> \<not> isConverting (fst (handleConvert env st))
     \<and> \<not> list_ex delivers (snd (handleConvert env st))
     \<and> SetSuccess True \<notin> set (snd (handleConvert env st))
     \<and> (g = f \<longrightarrow> (\<exists>d e. content f = Inr d \<and> XLSX_read env d = Inl e
            \<and> error (fst (handleConvert env st)) = Some (error_text e)))"
proof -
  from f have "\<exists>x\<in>set (files st). \<not> completes env x"
    using decode_fails_not_completes by blast
  from split_list_first_prop [OF this]
  obtain pre g post where fs: "files st = pre @ g # post"
    and g: "\<not> completes env g" and pre: "\<forall>h\<in>set pre. completes env h"
    by auto
  from f fs pre have mem: "f \<in> set (g # post)"
    using decode_fails_not_completes by auto
  from handleConvert_first_throw [OF fs nm pre g, of ]
  obtain e evs z' where run: "handleConvert env st =
      (st\<lparr>isConverting := False, error := Some (error_text e), success := False,
          progress := last (0 # map (\<lambda>j. progress_pct j (length (files st))) [0..<length pre])\<rparr>,
       [SetIsConverting True, SetError None, SetSuccess False, SetProgress 0] @ evs
         @ [SetError (Some (error_text e)), SetIsConverting False])"
    and e: "progress_events evs = map (\<lambda>j. progress_pct j (length (files st))) [0..<length pre]"
     "read_files evs = pre @ [g]" "list_all loop_event evs"
    and thrown: "fst (process_file env (outputFolderName st) g z') = Inl e"
    by blast
  note only = loop_event_only [OF e(3)]
  have "g = f \<longrightarrow> (\<exists>d e'. content f = Inr d \<and> XLSX_read env d = Inl e'
            \<and> error (fst (handleConvert env st)) = Some (error_text e'))"
  proof
    assume "g = f"
    with process_file_decode_fails [OF f(2), of "outputFolderName st" z'] thrown
    show "\<exists>d e'. content f = Inr d \<and> XLSX_read env d = Inl e'
            \<and> error (fst (handleConvert env st)) = Some (error_text e')"
      unfolding run by auto
  qed
  moreover have "read_files (snd (handleConvert env st)) = pre @ [g]"
    unfolding run using e by simp
  moreover have "progress_events (snd (handleConvert env st))
          = 0 # map (\<lambda>j. progress_pct j (length (files st))) [0..<length pre]"
    unfolding run using e by simp
  moreover have "\<not> list_ex delivers (snd (handleConvert env st))"
    unfolding run using only(1) by (simp add: list_ex_iff)
  moreover have "SetSuccess True \<notin> set (snd (handleConvert env st))"
    unfolding run using only(2) by simp
  moreover have "progress (fst (handleConvert env st))
          = last (0 # map (\<lambda>j. progress_pct j (length (files st))) [0..<length pre])"
   "error (fst (handleConvert env st)) \<noteq> None"
   "\<not> success (fst (handleConvert env st))"
   "\<not> isConverting (fst (handleConvert env st))"
    unfolding run by simp_all
  ultimately show ?thesis using fs mem pre g by blast
qed

theorem handleConvert_decode_failure_witness:
  "example_file ''bad.xlsx'' ''A/bad.xlsx'' 9 \<in> set (files (example_state example_three ''out''))
   \<and> decode_fails example_env (example_file ''bad.xlsx'' ''A/bad.xlsx'' 9)
   \<and> trim (outputFolderName (example_state example_three ''out'')) \<noteq> []
   \<and> error (fst (handleConvert example_env (example_state example_three ''out''))) \<noteq> None
   \<and> \<not> success (fst (handleConvert example_env (example_state example_three ''out'')))
   \<and> \<not> list_ex delivers (snd (handleConvert example_env (example_state example_three ''out'')))"
proof -
  have h1: "example_file ''bad.xlsx'' ''A/bad.xlsx'' 9 \<in> set (files (example_state example_three ''out''))"
    by (simp add: example_state_def example_three_def)
  have h2: "decode_fails example_env (example_file ''bad.xlsx'' ''A/bad.xlsx'' 9)"
    by (simp add: decode_fails_def example_env_def example_read_def example_file_def)
  have h3: "trim (outputFolderName (example_state example_three ''out'')) \<noteq> []"
    by (simp add: example_state_def trim_def is_white_def)
  from handleConvert_decode_failure [OF h1 h2 h3] h1 h2 h3 show ?thesis
    by blast
qed


text \<open>The same run, evaluated: three files of which the second is not a spreadsheet.\<close>

lemma progress_pct_3:
  "progress_pct 0 (Suc (Suc (Suc 0))) = 33"
  "progress_pct (Suc 0) (Suc (Suc (Suc 0))) = 67"
  "progress_pct (Suc (Suc 0)) (Suc (Suc (Suc 0))) = 100"
  by code_simp+


lemma example_second_file_fails:
  "handleConvert example_env (example_state example_three ''out'') =
     ((example_state example_three ''out'')\<lparr>progress := 33, error := Some ''Unsupported file''\<rparr>,
      [SetIsConverting True, SetError None, SetSuccess False, SetProgress 0,
       ArrayBuffer (example_file ''a.xlsx'' ''A/a.xlsx'' 1), XLSXRead [1],
       ZipFile ''out/a.csv'' ''a,b'', SetProgress 33,
       ArrayBuffer (example_file ''bad.xlsx'' ''A/bad.xlsx'' 9), XLSXRead [9],
       SetError (Some ''Unsupported file''), SetIsConverting False])"
  by (simp add: handleConvert_def example_state_def example_three_def example_file_def
        example_env_def example_read_def process_file_def newPathBase_def set_first_def
        trim_def is_white_def replace_ext_def not_slash_dot_def catch_finally_def
        error_text_def progress_pct_3 Let_def)

subsection \<open>Successful runs\<close>

text \<open>A run is successful when it reaches \<open>setSuccess(true)\<close>.\<close>

lemma handleConvert_success_D:
  assumes "SetSuccess True \<in> set (snd (handleConvert env st))"
  shows "files st \<noteq> [] \<and> trim (outputFolderName st) \<noteq> [] \<and> (\<forall>h\<in>set (files st). completes env h)"
proof -
  have ne: "files st \<noteq> []" and nm: "trim (outputFolderName st) \<noteq> []"
    using assms by (auto simp: handleConvert_def split: if_splits)
  have "\<forall>h\<in>set (files st). completes env h"
  proof (rule ccontr)
    assume "\<not> (\<forall>h\<in>set (files st). completes env h)"
    then have "\<exists>x\<in>set (files st). \<not> completes env x" by simp
    from split_list_first_prop [OF this]
    obtain pre g post where fs: "files st = pre @ g # post"
      and g: "\<not> completes env g" and pre: "\<forall>h\<in>set pre. completes env h"
      by auto
    from handleConvert_first_throw [OF fs nm pre g]
    obtain e evs where run: "snd (handleConvert env st) =
       [SetIsConverting True, SetError None, SetSuccess False, SetProgress 0] @ evs
         @ [SetError (Some (error_text e)), SetIsConverting False]"
      and e: "list_all loop_event evs"
      by force
    from assms loop_event_only(2) [OF e, of True] show False
      unfolding run by simp
  qed
  with ne nm show ?thesis by simp
qed

lemma handleConvert_zip_entries:
  assumes "SetSuccess True \<in> set (snd (handleConvert env st))"
  shows "zip_entries (snd (handleConvert env st)) =
     concat (map (\<lambda>f. zip_entries (snd (process_file env (outputFolderName st) f []))) (files st))"
proof -
  from handleConvert_success_D [OF assms]
  have ne: "files st \<noteq> []" and nm: "trim (outputFolderName st) \<noteq> []"
    and ok: "\<forall>h\<in>set (files st). completes env h"
    by simp_all
  from handleConvert_all_complete [OF ne nm ok]
  obtain evs z tl where run: "snd (handleConvert env st) =
       [SetIsConverting True, SetError None, SetSuccess False, SetProgress 0] @ evs
         @ GenerateAsync z # tl"
     and tl: "tl = (case generateAsync env z of
               Inl e \<Rightarrow> [SetError (Some (error_text e)), SetIsConverting False]
             | Inr b \<Rightarrow> [SaveAs b (trim (outputFolderName st) @ ''.zip''), SetSuccess True,
                         SetIsConverting False])"
     and e: "zip_entries evs =
          concat (map (\<lambda>f. zip_entries (snd (process_file env (outputFolderName st) f []))) (files st))"
    by force
  show ?thesis
    unfolding run tl using e by (simp split: sum.splits)
qed

lemma handleConvert_progress_events:
  assumes "SetSuccess True \<in> set (snd (handleConvert env st))"
  shows "progress_events (snd (handleConvert env st)) =
     0 # map (\<lambda>j. progress_pct j (length (files st))) [0..<length (files st)]"
proof -
  from handleConvert_success_D [OF assms]
  have ne: "files st \<noteq> []" and nm: "trim (outputFolderName st) \<noteq> []"
    and ok: "\<forall>h\<in>set (files st). completes env h"
    by simp_all
  from handleConvert_all_complete [OF ne nm ok]
  obtain evs z tl where run: "snd (handleConvert env st) =
       [SetIsConverting True, SetError None, SetSuccess False, SetProgress 0] @ evs
         @ GenerateAsync z # tl"
     and tl: "tl = (case generateAsync env z of
               Inl e \<Rightarrow> [SetError (Some (error_text e)), SetIsConverting False]
             | Inr b \<Rightarrow> [SaveAs b (trim (outputFolderName st) @ ''.zip''), SetSuccess True,
                         SetIsConverting False])"
     and e: "progress_events evs = map (\<lambda>j. progress_pct j (length (files st))) [0..<length (files st)]"
    by force
  show ?thesis
    unfolding run tl using e by (simp split: sum.splits)
qed

lemma join_leaf:
  "join sep (p # mids @ [q]) = join sep (p # mids) @ sep # q"
  using join_snoc [of "p # mids" sep q] by simp

lemma progress_pct_1: "progress_pct 0 (Suc 0) = 100"
  by code_simp

lemma example_single_file_run:
  "handleConvert example_env (example_state [example_report] ''out'') =
     ((example_state [example_report] ''out'')\<lparr>progress := 100, success := True\<rparr>,
      [SetIsConverting True, SetError None, SetSuccess False, SetProgress 0,
       ArrayBuffer example_report, XLSXRead [1], ZipFile ''out/B/report.csv'' ''a,b'',
       SetProgress 100, GenerateAsync [(''out/B/report.csv'', ''a,b'')],
       SaveAs [3] ''out.zip'', SetSuccess True, SetIsConverting False])"
  by (simp add: handleConvert_def example_state_def example_report_def example_file_def
        example_env_def example_read_def process_file_def newPathBase_def set_first_def
        trim_def is_white_def replace_ext_def not_slash_dot_def progress_pct_1 Let_def)

subsection \<open>Paths of the entries\<close>

lemma split_append_sep: "split sep (xs @ sep # ys) = split sep xs @ split sep ys"
proof (induction xs)
  case Nil
  then show ?case by simp
next
  case (Cons c xs)
  obtain p ps where "split sep xs = p # ps"
    by (cases "split sep xs") simp_all
  with Cons show ?case by simp
qed

lemma join_cons_char: "join sep ((c # p) # ps) = c # join sep (p # ps)"
  by (cases ps) simp_all

lemma join_split: "join sep (split sep s) = s"
proof (induction s)
  case Nil
  then show ?case by simp
next
  case (Cons c s)
  obtain p ps where ps: "split sep s = p # ps"
    by (cases "split sep s") simp_all
  with Cons show ?case
    by (simp add: join_cons_char join_Cons)
qed

lemma join_append:
  "xs \<noteq> [] \<Longrightarrow> ys \<noteq> [] \<Longrightarrow> join sep (xs @ ys) = join sep xs @ sep # join sep ys"
  by (induction sep xs rule: join.induct) (simp_all add: join_Cons)

lemma newPathBase_leaf:
  assumes "webkitRelativePath f = dir @ CHR ''/'' # leaf"
  shows "newPathBase r f = join CHR ''/'' (trim r # tl (split CHR ''/'' dir)) @ CHR ''/'' # leaf"
proof -
  obtain p ps where ps: "split CHR ''/'' dir = p # ps"
    by (cases "split CHR ''/'' dir") simp_all
  have "newPathBase r f = join CHR ''/'' ((trim r # ps) @ split CHR ''/'' leaf)"
    by (simp add: newPathBase_def assms split_append_sep ps set_first_def)
  also have "\<dots> = join CHR ''/'' (trim r # ps) @ CHR ''/'' # leaf"
    by (subst join_append) (simp_all add: join_split)
  finally show ?thesis by (simp add: ps)
qed

lemma lower_unit_fixed:
  "lower_unit CHR ''.'' = CHR ''.''" "lower_unit CHR ''/'' = CHR ''/''"
  by (simp_all add: lower_unit_def)

lemma lower_unit_dot: "lower_unit c = CHR ''.'' \<Longrightarrow> c = CHR ''.''"
proof -
  assume a: "lower_unit c = CHR ''.''"
  let ?n = "of_char c :: nat"
  show ?thesis
  proof (cases "(65 \<le> ?n \<and> ?n \<le> 90) \<or> (192 \<le> ?n \<and> ?n \<le> 222 \<and> ?n \<noteq> 215)")
    case True
    with a have "char_of (?n + 32) = CHR ''.''"
      by (simp add: lower_unit_def Let_def)
    then have "(of_char (char_of (?n + 32) :: char) :: nat) = of_char CHR ''.''"
      by simp
    then have "(?n + 32) mod 256 = 46"
      by (simp add: of_char_of)
    moreover from True have "?n + 32 < 256" by auto
    ultimately have "?n + 32 = 46" by simp
    with True have False by auto
    then show ?thesis ..
  next
    case False
    with a show ?thesis by (simp add: lower_unit_def Let_def)
  qed
qed

lemma lower_unit_not_slash_dot:
  "lower_unit c \<noteq> CHR ''/'' \<Longrightarrow> lower_unit c \<noteq> CHR ''.'' \<Longrightarrow> not_slash_dot c"
  using lower_unit_fixed by (auto simp: not_slash_dot_def)

lemma suffix_lower_ext:
  assumes "suffix (CHR ''.'' # e) (toLowerCase nm)" "e \<noteq> []" "list_all not_slash_dot e"
  shows "\<exists>stem ext. nm = stem @ CHR ''.'' # ext \<and> ext \<noteq> [] \<and> list_all not_slash_dot ext"
proof -
  from assms(1) obtain zs where "map lower_unit nm = zs @ CHR ''.'' # e"
    by (auto simp: suffix_def toLowerCase_def)
  then obtain stem rest where nm: "nm = stem @ rest" and rest: "map lower_unit rest = CHR ''.'' # e"
    by (auto simp: map_eq_append_conv)
  then obtain c ext where r: "rest = c # ext" and c: "lower_unit c = CHR ''.''"
    and ext: "map lower_unit ext = e"
    by (auto simp: map_eq_Cons_conv)
  have "not_slash_dot x" if "x \<in> set ext" for x
  proof -
    from that ext have "lower_unit x \<in> set e" by auto
    with assms(3) have "not_slash_dot (lower_unit x)" by (simp add: list_all_iff)
    then show ?thesis
      by (intro lower_unit_not_slash_dot) (simp_all add: not_slash_dot_def)
  qed
  then have "list_all not_slash_dot ext" by (simp add: list_all_iff)
  moreover from ext assms(2) have "ext \<noteq> []" by auto
  ultimately show ?thesis using nm r lower_unit_dot [OF c] by blast
qed

lemma is_excel_name_ext:
  assumes "is_excel_name nm"
  shows "\<exists>stem ext. nm = stem @ CHR ''.'' # ext \<and> ext \<noteq> [] \<and> list_all not_slash_dot ext"
proof -
  from assms have "suffix (CHR ''.'' # ''xlsx'') (toLowerCase nm) \<or> suffix (CHR ''.'' # ''xls'') (toLowerCase nm)"
    by (simp add: is_excel_name_suffix)
  then show ?thesis
  proof
    assume "suffix (CHR ''.'' # ''xlsx'') (toLowerCase nm)"
    then show ?thesis by (rule suffix_lower_ext) (simp_all add: not_slash_dot_def)
  next
    assume "suffix (CHR ''.'' # ''xls'') (toLowerCase nm)"
    then show ?thesis by (rule suffix_lower_ext) (simp_all add: not_slash_dot_def)
  qed
qed

lemma forEach_sheet_events:
  "snd (forEach_sheet env base wb ss z) =
     map (\<lambda>s. ZipFile (replace_ext base (''_'' @ s @ ''.csv''))
                       (projr (sheet_to_csv env (Sheets wb s))))
       (takeWhile (\<lambda>s. \<not> isl (sheet_to_csv env (Sheets wb s))) ss)"
proof (induction ss arbitrary: z)
  case Nil
  then show ?case by simp
next
  case (Cons s ss)
  show ?case
  proof (cases "sheet_to_csv env (Sheets wb s)")
    case (Inl e)
    then show ?thesis by simp
  next
    case (Inr csv)
    with Cons.IH [of "zip_file (replace_ext base (''_'' @ s @ ''.csv'')) csv z"]
    show ?thesis by (simp add: Let_def split_beta)
  qed
qed

lemma process_file_paths:
  assumes "content f = Inr d" "XLSX_read env d = Inr wb"
  shows "map fst (zip_entries (snd (process_file env r f z))) =
     (if length (SheetNames wb) = 1
      then (if isl (sheet_to_csv env (Sheets wb (hd (SheetNames wb)))) then []
            else [replace_ext (newPathBase r f) ''.csv''])
      else map (\<lambda>s. replace_ext (newPathBase r f) (''_'' @ s @ ''.csv''))
             (takeWhile (\<lambda>s. \<not> isl (sheet_to_csv env (Sheets wb s))) (SheetNames wb)))"
proof (cases "length (SheetNames wb) = 1")
  case True
  with assms show ?thesis
    by (auto simp: process_file_def Let_def split: sum.splits)
next
  case False
  have "snd (process_file env r f z) =
      ArrayBuffer f # XLSXRead d # snd (forEach_sheet env (newPathBase r f) wb (SheetNames wb) z)"
    using assms False by (simp add: process_file_def Let_def split: prod.splits)
  with False show ?thesis
    by (simp add: forEach_sheet_events comp_def)
qed

lemma sheet_path:
  assumes "ext \<noteq> []" "list_all not_slash_dot ext" "CHR ''$'' \<notin> set s"
  shows "replace_ext (y @ CHR ''.'' # ext) (CHR ''_'' # s @ ''.csv'') = y @ CHR ''_'' # s @ ''.csv''"
  using assms by (intro replace_ext_append) simp_all








text \<open>With sheet names free of dollar signs, a workbook of several sheets gets one
  entry for each sheet, the extension of the leaf replaced by an underscore, the sheet
  name and \<open>.csv\<close>, and none of them is the path with the plain \<open>.csv\<close>.\<close>

lemma multi_sheet_entries:
  assumes nm: "is_excel_name (name f)"
    and path: "webkitRelativePath f = dir @ CHR ''/'' # name f"
    and wb: "content f = Inr d" "XLSX_read env d = Inr wb"
    and many: "length (SheetNames wb) \<noteq> 1" and ok: "sheets_ok env wb"
    and names: "\<forall>s\<in>set (SheetNames wb). CHR ''$'' \<notin> set s"
  shows "\<exists>y. replace_ext (newPathBase r f) ''.csv'' = y @ ''.csv''
     \<and> map fst (zip_entries (snd (process_file env r f z)))
          = map (\<lambda>s. y @ CHR ''_'' # s @ ''.csv'') (SheetNames wb)
     \<and> y @ ''.csv'' \<notin> set (map fst (zip_entries (snd (process_file env r f z))))"
proof -
  from is_excel_name_ext [OF nm] obtain stem ext where
    leaf: "name f = stem @ CHR ''.'' # ext" and ext: "ext \<noteq> []" "list_all not_slash_dot ext"
    by blast
  define y where "y = join CHR ''/'' (trim r # tl (split CHR ''/'' dir)) @ CHR ''/'' # stem"
  have base: "newPathBase r f = y @ CHR ''.'' # ext"
    by (simp add: newPathBase_leaf [OF path] leaf y_def)
  have plain: "replace_ext (newPathBase r f) ''.csv'' = y @ ''.csv''"
    unfolding base by (rule replace_ext_append [OF ext]) simp
  from many ok have all: "takeWhile (\<lambda>s. \<not> isl (sheet_to_csv env (Sheets wb s))) (SheetNames wb)
      = SheetNames wb"
    by (simp add: sheets_ok_def takeWhile_eq_all_conv)
  have paths: "map fst (zip_entries (snd (process_file env r f z)))
      = map (\<lambda>s. y @ CHR ''_'' # s @ ''.csv'') (SheetNames wb)"
    using many names by (simp add: process_file_paths [OF wb] all base sheet_path [OF ext])
  have "y @ ''.csv'' \<notin> set (map (\<lambda>s. y @ CHR ''_'' # s @ ''.csv'') (SheetNames wb))"
    by auto
  with plain paths show ?thesis by auto
qed

text \<open>
  C2. The replacement string of the call for a sheet is built from the sheet name, and
  \<open>replace\<close> expands dollar patterns in a replacement string. For a workbook at
  \<open>A/data.xlsx\<close> with the sheets \<open>$&\<close> and \<open>Sheet2\<close>, the first entry is therefore
  written to \<open>out/data_.xlsx.csv\<close>, not to \<open>out/data_$&.csv\<close>.
\<close>

theorem dollar_sheet_name:
  "process_file example_env ''out'' (example_data 3) [] =
     (Inr [(''out/data_.xlsx.csv'', ''1,2''), (''out/data_Sheet2.csv'', ''3,4'')],
      [ArrayBuffer (example_data 3), XLSXRead [3],
       ZipFile ''out/data_.xlsx.csv'' ''1,2'', ZipFile ''out/data_Sheet2.csv'' ''3,4''])
   \<and> XLSX_read example_env [3]
       = Inr \<lparr>SheetNames = [''$&'', ''Sheet2''], Sheets = [''$&'' \<mapsto> ''1,2'', ''Sheet2'' \<mapsto> ''3,4'']\<rparr>"
  by (simp add: example_data_def example_file_def example_env_def example_read_def
        process_file_def newPathBase_def set_first_def trim_def is_white_def replace_ext_def
        not_slash_dot_def Let_def)

subsection \<open>The progress percentage\<close>

text \<open>Rounding to a double is monotone, and so is the percentage in the number of
  completed files.\<close>

lemma ilog2_bounds:
  assumes "0 < x"
  shows "2 powi (ilog2 x) \<le> x" and "x < 2 powi (ilog2 x + 1)"
proof -
  have "2 powi (ilog2 x) \<le> x \<and> x < 2 powi (ilog2 x + 1)"
  proof (cases "1 \<le> x")
    case True
    define m where "m = \<lfloor>x\<rfloor>"
    from True have m: "0 < m" by (simp add: m_def)
    from bitlen_bounds [OF m] have b: "2 ^ nat (bitlen m - 1) \<le> m" "m < 2 ^ nat (bitlen m)"
      by simp_all
    from m have pos: "1 \<le> bitlen m" by (simp add: bitlen_alt_def)
    have e: "ilog2 x = bitlen m - 1" using True by (simp add: ilog2_def m_def)
    have p1: "(2::rat) powi (bitlen m - 1) = 2 ^ nat (bitlen m - 1)"
      using pos by (simp add: power_int_def)
    have p2: "(2::rat) powi (bitlen m - 1 + 1) = 2 ^ nat (bitlen m)"
      using pos by (simp add: power_int_def)
    have "(of_int m :: rat) \<le> x" by (simp add: m_def)
    moreover from b(1) have "(2::rat) ^ nat (bitlen m - 1) \<le> of_int m"
      by (metis of_int_le_iff of_int_numeral of_int_power)
    moreover have "x < of_int (m + 1)" unfolding m_def by linarith
    moreover from b(2) have "m + 1 \<le> 2 ^ nat (bitlen m)" by simp
    then have "(of_int (m + 1) :: rat) \<le> 2 ^ nat (bitlen m)"
      by (metis of_int_le_iff of_int_numeral of_int_power)
    ultimately show ?thesis unfolding e p1 p2 by linarith
  next
    case False
    define y where "y = 1 / x"
    define c where "c = \<lceil>y\<rceil> - 1"
    from False assms have y: "1 < y" by (simp add: y_def)
    then have c: "0 < c" unfolding c_def by linarith
    from bitlen_bounds [OF c] have b: "2 ^ nat (bitlen c - 1) \<le> c" "c < 2 ^ nat (bitlen c)"
      by simp_all
    from c have pos: "1 \<le> bitlen c" by (simp add: bitlen_alt_def)
    have e: "ilog2 x = - bitlen c" using False by (simp add: ilog2_def c_def y_def)
    have p1: "(2::rat) powi (- bitlen c) = 1 / 2 ^ nat (bitlen c)"
      using pos by (simp add: power_int_def field_simps)
    have p2: "(2::rat) powi (- bitlen c + 1) = 1 / 2 ^ nat (bitlen c - 1)"
      using pos by (simp add: power_int_def field_simps)
    have "of_int c < y" unfolding c_def by linarith
    moreover from b(1) have "(2::rat) ^ nat (bitlen c - 1) \<le> of_int c"
      by (metis of_int_le_iff of_int_numeral of_int_power)
    ultimately have lo: "(2::rat) ^ nat (bitlen c - 1) < y" by linarith
    have "y \<le> of_int (c + 1)" unfolding c_def by simp
    moreover from b(2) have "c + 1 \<le> 2 ^ nat (bitlen c)" by simp
    then have "(of_int (c + 1) :: rat) \<le> 2 ^ nat (bitlen c)"
      by (metis of_int_le_iff of_int_numeral of_int_power)
    ultimately have hi: "y \<le> 2 ^ nat (bitlen c)" by linarith
    from hi assms have "1 / 2 ^ nat (bitlen c) \<le> x"
      unfolding y_def by (simp add: field_simps)
    moreover from lo assms have "x < 1 / 2 ^ nat (bitlen c - 1)"
      unfolding y_def by (simp add: field_simps)
    ultimately show ?thesis unfolding e p1 p2 by simp
  qed
  then show "2 powi (ilog2 x) \<le> x" and "x < 2 powi (ilog2 x + 1)" by simp_all
qed

lemma ilog2_mono:
  assumes "0 < x" "x \<le> y"
  shows "ilog2 x \<le> ilog2 y"
proof (rule ccontr)
  assume "\<not> ilog2 x \<le> ilog2 y"
  then have "ilog2 y + 1 \<le> ilog2 x" by simp
  then have "(2::rat) powi (ilog2 y + 1) \<le> 2 powi (ilog2 x)"
    by (rule power_int_increasing) simp
  moreover from assms have "0 < y" by simp
  note ilog2_bounds(2) [OF this] ilog2_bounds(1) [OF assms(1)]
  ultimately show False using assms(2) by linarith
qed

lemma round_half_even_of_int [simp]: "round_half_even (of_int k) = k"
  by (simp add: round_half_even_def)

lemma round_half_even_mono:
  assumes "x \<le> y"
  shows "round_half_even x \<le> round_half_even y"
proof -
  have lo: "\<lfloor>x\<rfloor> \<le> round_half_even x" "round_half_even x \<le> \<lfloor>x\<rfloor> + 1" for x
    by (simp_all add: round_half_even_def Let_def)
  show ?thesis
  proof (cases "\<lfloor>x\<rfloor> = \<lfloor>y\<rfloor>")
    case True
    with assms show ?thesis
      by (auto simp: round_half_even_def Let_def)
  next
    case False
    with assms have "\<lfloor>x\<rfloor> + 1 \<le> \<lfloor>y\<rfloor>"
      using floor_mono [OF assms] by linarith
    with lo(2) [of x] lo(1) [of y] show ?thesis by linarith
  qed
qed

lemma fl64_pos:
  assumes "0 < x"
  shows "fl64 x = of_int (round_half_even (x / 2 powi (ilog2 x - 52))) * 2 powi (ilog2 x - 52)"
  using assms by (simp add: fl64_def Let_def)

lemma fl64_bounds:
  assumes "0 < x"
  shows "2 powi (ilog2 x) \<le> fl64 x" and "fl64 x \<le> 2 powi (ilog2 x + 1)"
proof -
  define u :: rat where "u = 2 powi (ilog2 x - 52)"
  have u: "0 < u" by (simp add: u_def zero_less_power_int)
  have lo: "2 powi (ilog2 x) = of_int (2 ^ 52) * u"
    unfolding u_def by (simp add: power_int_diff)
  have hi: "2 powi (ilog2 x + 1) = of_int (2 ^ 53) * u"
    unfolding u_def by (simp add: power_int_diff power_int_add)
  from ilog2_bounds [OF assms] u have "of_int (2 ^ 52) \<le> x / u" "x / u \<le> of_int (2 ^ 53)"
    unfolding lo hi by (simp_all add: field_simps)
  then have "round_half_even (of_int (2 ^ 52)) \<le> round_half_even (x / u)"
    "round_half_even (x / u) \<le> round_half_even (of_int (2 ^ 53))"
    by (simp_all only: round_half_even_mono)
  then have "2 ^ 52 \<le> round_half_even (x / u)" "round_half_even (x / u) \<le> 2 ^ 53"
    unfolding round_half_even_of_int by simp_all
  then have "(of_int (2 ^ 52) :: rat) \<le> of_int (round_half_even (x / u))"
    "(of_int (round_half_even (x / u)) :: rat) \<le> of_int (2 ^ 53)"
    unfolding of_int_le_iff by simp_all
  with u have "of_int (2 ^ 52) * u \<le> of_int (round_half_even (x / u)) * u"
    "of_int (round_half_even (x / u)) * u \<le> of_int (2 ^ 53) * u"
    by (simp_all only: mult_le_cancel_right_pos)
  then show "2 powi (ilog2 x) \<le> fl64 x" and "fl64 x \<le> 2 powi (ilog2 x + 1)"
    unfolding lo hi fl64_pos [OF assms] u_def by simp_all
qed

lemma fl64_positive:
  assumes "0 < x"
  shows "0 < fl64 x"
proof -
  have "(0::rat) < 2 powi (ilog2 x)" by (simp add: zero_less_power_int)
  with fl64_bounds(1) [OF assms] show ?thesis by linarith
qed

lemma fl64_mono:
  assumes "0 < x" "x \<le> y"
  shows "fl64 x \<le> fl64 y"
proof -
  from assms have y: "0 < y" by simp
  from ilog2_mono [OF assms] consider "ilog2 x = ilog2 y" | "ilog2 x + 1 \<le> ilog2 y"
    by linarith
  then show ?thesis
  proof cases
    case 1
    define u :: rat where "u = 2 powi (ilog2 y - 52)"
    have u: "0 < u" by (simp add: u_def zero_less_power_int)
    with assms(2) have "x / u \<le> y / u" by (simp add: divide_right_mono)
    then have "round_half_even (x / u) \<le> round_half_even (y / u)"
      by (rule round_half_even_mono)
    then have "(of_int (round_half_even (x / u)) :: rat) \<le> of_int (round_half_even (y / u))"
      by simp
    with u have "of_int (round_half_even (x / u)) * u \<le> of_int (round_half_even (y / u)) * u"
      by (simp only: mult_le_cancel_right_pos)
    then show ?thesis
      unfolding fl64_pos [OF assms(1)] fl64_pos [OF y] 1 u_def .
  next
    case 2
    then have "(2::rat) powi (ilog2 x + 1) \<le> 2 powi (ilog2 y)"
      by (rule power_int_increasing) simp
    with fl64_bounds(2) [OF assms(1)] fl64_bounds(1) [OF y] show ?thesis
      by linarith
  qed
qed

lemma fl64_zero [simp]: "fl64 0 = 0"
  by (simp add: fl64_def)

lemma fl64_mono0:
  assumes "0 \<le> x" "x \<le> y"
  shows "fl64 x \<le> fl64 y"
proof (cases "x = 0")
  case True
  show ?thesis
  proof (cases "y = 0")
    case True
    with \<open>x = 0\<close> show ?thesis by simp
  next
    case False
    with assms True have "0 < y" by simp
    from fl64_positive [OF this] True show ?thesis by simp
  qed
next
  case False
  with assms have "0 < x" by simp
  then show ?thesis using assms(2) by (rule fl64_mono)
qed

lemma fl64_nonneg: "0 \<le> x \<Longrightarrow> 0 \<le> fl64 x"
  using fl64_mono0 [of 0 x] by simp

lemma pct_mono:
  assumes "0 \<le> x" "x \<le> y"
  shows "nat (Math_round (fl64 (fl64 x * 100))) \<le> nat (Math_round (fl64 (fl64 y * 100)))"
proof -
  from assms have "fl64 x \<le> fl64 y" by (rule fl64_mono0)
  moreover from assms(1) have "0 \<le> fl64 x" by (rule fl64_nonneg)
  ultimately have "0 \<le> fl64 x * 100" "fl64 x * 100 \<le> fl64 y * 100" by simp_all
  then have "fl64 (fl64 x * 100) \<le> fl64 (fl64 y * 100)" by (rule fl64_mono0)
  then have "Math_round (fl64 (fl64 x * 100)) \<le> Math_round (fl64 (fl64 y * 100))"
    unfolding Math_round_def by (intro floor_mono) simp
  then show ?thesis by simp
qed

lemma progress_pct_mono: "i \<le> j \<Longrightarrow> progress_pct i n \<le> progress_pct j n"
  unfolding progress_pct_def
  by (intro pct_mono) (simp_all add: divide_right_mono)

lemma fl64_1: "fl64 1 = 1"
  by code_simp

lemma fl64_100: "fl64 100 = 100"
  by code_simp

lemma Math_round_100: "Math_round 100 = 100"
  by code_simp

lemma progress_pct_last: "0 < n \<Longrightarrow> progress_pct (n - 1) n = 100"
  by (simp add: progress_pct_def fl64_1 fl64_100 Math_round_100)

lemma progress_pct_200: "progress_pct 0 200 = 1"
  by code_simp

lemma progress_pct_201: "progress_pct 0 201 = 0"
  by code_simp

lemma progress_pct_first: 
  assumes "0 < n"
  shows "0 < progress_pct 0 n \<longleftrightarrow> n \<le> 200"
proof (cases "n \<le> 200")
  case True
  with assms have "(1::rat) / of_nat 200 \<le> 1 / of_nat n"
    by (intro divide_left_mono) simp_all
  then have "progress_pct 0 200 \<le> progress_pct 0 n"
    unfolding progress_pct_def by (intro pct_mono) simp_all
  with True show ?thesis by (simp add: progress_pct_200)
next
  case False
  then have "(1::rat) / of_nat n \<le> 1 / of_nat 201"
    by (intro divide_left_mono) simp_all
  then have "progress_pct 0 n \<le> progress_pct 0 201"
    unfolding progress_pct_def by (intro pct_mono) simp_all
  with False show ?thesis by (simp add: progress_pct_201)
qed


lemma handleConvert_success_I:
  assumes ne: "files st \<noteq> []" and nm: "trim (outputFolderName st) \<noteq> []"
    and ok: "\<forall>h\<in>set (files st). completes env h"
    and gen: "\<forall>a. \<not> isl (generateAsync env a)"
  shows "SetSuccess True \<in> set (snd (handleConvert env st))"
proof -
  from handleConvert_all_complete [OF ne nm ok]
  obtain evs a tl where run: "snd (handleConvert env st) =
       [SetIsConverting True, SetError None, SetSuccess False, SetProgress 0] @ evs
         @ GenerateAsync a # tl"
    and tl: "tl = (case generateAsync env a of
               Inl e \<Rightarrow> [SetError (Some (error_text e)), SetIsConverting False]
             | Inr b \<Rightarrow> [SaveAs b (trim (outputFolderName st) @ ''.zip''), SetSuccess True,
                         SetIsConverting False])"
    by force
  from gen obtain b where "generateAsync env a = Inr b"
    by (cases "generateAsync env a") (auto dest: spec [of _ a])
  then show ?thesis unfolding run tl by simp
qed

lemma progress_pct_sorted: "sorted (map (\<lambda>i. progress_pct i n) [0..<m])"
  by (simp add: sorted_iff_nth_mono progress_pct_mono)

lemma progress_pct_not_exact:
  "progress_pct 28 200 = 14 \<and> Math_round (100 * 29 / 200) = 15"
  by code_simp

text \<open>
  C4 (as amended). In a successful run over a non-empty file list with a non-blank
  folder name, the values passed to \<open>setProgress\<close> are the reset to 0 followed by one
  value for each file, the value for file \<open>i\<close> of \<open>n\<close> (counting from 0) being
  \<open>Math.round(((i + 1) / n) * 100)\<close> in double arithmetic. The sequence of the values
  for the files is non-decreasing and its last value is exactly 100. Its first value is
  above 0 exactly when there are at most 200 files.
\<close>

theorem progress_sequence:
  assumes "files st \<noteq> []" and "trim (outputFolderName st) \<noteq> []"
    and "SetSuccess True \<in> set (snd (handleConvert env st))"
  shows "progress_events (snd (handleConvert env st))
           = 0 # map (\<lambda>i. progress_pct i (length (files st))) [0..<length (files st)]
     \<and> sorted (map (\<lambda>i. progress_pct i (length (files st))) [0..<length (files st)])
     \<and> last (map (\<lambda>i. progress_pct i (length (files st))) [0..<length (files st)]) = 100
     \<and> (0 < hd (map (\<lambda>i. progress_pct i (length (files st))) [0..<length (files st)])
          \<longleftrightarrow> length (files st) \<le> 200)"
proof -
  define n where "n = length (files st)"
  from assms(1) have n: "0 < n" by (simp add: n_def)
  then have ne: "[0..<n] \<noteq> []" by simp
  have "last (map (\<lambda>i. progress_pct i n) [0..<n]) = progress_pct (n - 1) n"
    using ne n by (simp add: last_map last_upt del: upt_eq_Nil_conv)
  then have l: "last (map (\<lambda>i. progress_pct i n) [0..<n]) = 100"
    using n progress_pct_last [of n] by simp
  have "hd (map (\<lambda>i. progress_pct i n) [0..<n]) = progress_pct 0 n"
    using ne n by (simp add: hd_map del: upt_eq_Nil_conv)
  then have h: "0 < hd (map (\<lambda>i. progress_pct i n) [0..<n]) \<longleftrightarrow> n \<le> 200"
    using n by (simp add: progress_pct_first)
  from handleConvert_progress_events [OF assms(3)] progress_pct_sorted [of n n] l h
  show ?thesis unfolding n_def by simp
qed


lemma completes_example:
  "completes example_env example_report" "completes example_env (example_data 2)"
  "completes example_env example_empty"
  by (simp_all add: completes_iff sheets_ok_def example_report_def example_data_def
        example_empty_def example_file_def example_env_def example_read_def)

theorem progress_sequence_witness:
  "files (example_state example_good ''out'') \<noteq> []
   \<and> trim (outputFolderName (example_state example_good ''out'')) \<noteq> []
   \<and> SetSuccess True \<in> set (snd (handleConvert example_env (example_state example_good ''out'')))
   \<and> progress_events (snd (handleConvert example_env (example_state example_good ''out'')))
       = [0, 33, 67, 100]"
proof -
  let ?st = "example_state example_good ''out''"
  have h1: "files ?st \<noteq> []" by (simp add: example_state_def example_good_def)
  have h2: "trim (outputFolderName ?st) \<noteq> []"
    by (simp add: example_state_def trim_def is_white_def)
  have ok: "\<forall>h\<in>set (files ?st). completes example_env h"
    by (simp add: example_state_def example_good_def completes_example)
  have gen: "\<forall>a. \<not> isl (generateAsync example_env a)"
    by (simp add: example_env_def)
  have h3: "SetSuccess True \<in> set (snd (handleConvert example_env ?st))"
    using h1 h2 ok gen by (rule handleConvert_success_I)
  have len: "length (files ?st) = Suc (Suc (Suc 0))"
    by (simp add: example_state_def example_good_def)
  have upt: "[0..<Suc (Suc (Suc 0))] = [0, Suc 0, Suc (Suc 0)]"
    by (simp add: upt_rec)
  from progress_sequence [OF h1 h2 h3] h1 h2 h3 show ?thesis
    unfolding len upt by (simp add: progress_pct_3)
qed


lemma completes_example_many: "\<forall>h\<in>set (example_many n). completes example_env h"
  by (auto simp: example_many_def completes_iff sheets_ok_def example_file_def
        example_env_def example_read_def)


text \<open>
  C4 as stated does not hold: in a successful run over 201 files the value set for
  the first file is \<open>Math.round((1 / 201) * 100)\<close>, which is 0.
\<close>

theorem first_progress_zero:
  "files (example_state (example_many 201) ''out'') \<noteq> []
   \<and> trim (outputFolderName (example_state (example_many 201) ''out'')) \<noteq> []
   \<and> SetSuccess True \<in> set (snd (handleConvert example_env (example_state (example_many 201) ''out'')))
   \<and> length (progress_events (snd (handleConvert example_env (example_state (example_many 201) ''out''))))
       = 202
   \<and> progress_events (snd (handleConvert example_env (example_state (example_many 201) ''out''))) ! 1 = 0"
proof -
  let ?st = "example_state (example_many 201) ''out''"
  have len: "length (files ?st) = 201" by (simp add: example_state_def example_many_def)
  then have h1: "files ?st \<noteq> []" by auto
  have h2: "trim (outputFolderName ?st) \<noteq> []"
    by (simp add: example_state_def trim_def is_white_def)
  have ok: "\<forall>h\<in>set (files ?st). completes example_env h"
    using completes_example_many [of 201] by (simp add: example_state_def)
  have gen: "\<forall>a. \<not> isl (generateAsync example_env a)"
    by (simp add: example_env_def)
  have h3: "SetSuccess True \<in> set (snd (handleConvert example_env ?st))"
    using h1 h2 ok gen by (rule handleConvert_success_I)
  have "progress_events (snd (handleConvert example_env ?st))
      = 0 # map (\<lambda>j. progress_pct j 201) [0..<201]"
    unfolding handleConvert_progress_events [OF h3] len ..
  then show ?thesis using h1 h2 h3 by (simp add: progress_pct_201)
qed

subsection \<open>The finalized archive\<close>

text \<open>In a successful run the archive object is passed to \<open>generateAsync\<close> once, and it
  is the result of the \<open>zip.file\<close> calls of the run in their order: its names are
  pairwise distinct, and under a name it holds the content of the last call for it.\<close>

lemma generated_append [simp]: "generated (xs @ ys) = generated xs @ generated ys"
  by (induction xs rule: generated.induct) auto

lemma saved_append [simp]: "saved (xs @ ys) = saved xs @ saved ys"
  by (induction xs rule: saved.induct) auto

lemma loop_event_not_delivered:
  assumes "list_all loop_event evs"
  shows "generated evs = []" "saved evs = []"
  using assms by (induction evs) (auto elim: loop_event.elims)

lemma zip_file_keys:
  "map fst (zip_file p c z) = (if p \<in> fst ` set z then map fst z else map fst z @ [p])"
  by (induction p c z rule: zip_file.induct) (auto simp: rev_image_eqI)

lemma zip_file_key_set: "fst ` set (zip_file p c z) = insert p (fst ` set z)"
  using zip_file_keys [of p c z, THEN arg_cong, of set] by (auto split: if_splits)

lemma zip_file_mem: "(p, c) \<in> set (zip_file p c z)"
  by (induction p c z rule: zip_file.induct) auto

lemma zip_file_other:
  "q \<noteq> p \<Longrightarrow> (q, d) \<in> set (zip_file p c z) \<longleftrightarrow> (q, d) \<in> set z"
  by (induction p c z rule: zip_file.induct) auto

lemma archive_distinct:
  "distinct (map fst z) \<Longrightarrow> distinct (map fst (fold (\<lambda>e. zip_file (fst e) (snd e)) es z))"
  by (induction es arbitrary: z) (simp_all add: zip_file_keys)

lemma archive_keys:
  "fst ` set (fold (\<lambda>e. zip_file (fst e) (snd e)) es z) = fst ` set z \<union> fst ` set es"
  by (induction es arbitrary: z) (simp_all add: zip_file_key_set)

lemma archive_keeps:
  "(p, c) \<in> set z \<Longrightarrow> p \<notin> fst ` set es \<Longrightarrow>
   (p, c) \<in> set (fold (\<lambda>e. zip_file (fst e) (snd e)) es z)"
proof (induction es arbitrary: z)
  case Nil
  then show ?case by simp
next
  case (Cons e es)
  from Cons.prems have "fst e \<noteq> p" by auto
  with Cons.prems(1) have "(p, c) \<in> set (zip_file (fst e) (snd e) z)"
    by (simp add: zip_file_other)
  with Cons show ?case by simp
qed

lemma archive_last_write:
  assumes "p \<notin> fst ` set es2"
  shows "(p, c) \<in> set (fold (\<lambda>e. zip_file (fst e) (snd e)) (es1 @ (p, c) # es2) z)"
  using assms by (simp add: archive_keeps zip_file_mem)

lemma one_entry:
  "distinct (map fst z) \<Longrightarrow> p \<in> fst ` set z \<Longrightarrow> length (filter (\<lambda>e. fst e = p) z) = 1"
proof (induction z)
  case Nil
  then show ?case by simp
next
  case (Cons e z)
  show ?case
  proof (cases "fst e = p")
    case True
    with Cons.prems have "p \<notin> fst ` set z" by auto
    then have "filter (\<lambda>e. fst e = p) z = []"
      by (auto simp: filter_empty_conv)
    with True show ?thesis by simp
  next
    case False
    with Cons show ?thesis by auto
  qed
qed

lemma handleConvert_success_trace:
  assumes "SetSuccess True \<in> set (snd (handleConvert env st))"
  shows "\<exists>evs z blob. snd (handleConvert env st) =
       [SetIsConverting True, SetError None, SetSuccess False, SetProgress 0] @ evs
         @ [GenerateAsync z, SaveAs blob (trim (outputFolderName st) @ ''.zip''),
            SetSuccess True, SetIsConverting False]
     \<and> generateAsync env z = Inr blob \<and> list_all loop_event evs
     \<and> zip_entries evs =
          concat (map (\<lambda>f. zip_entries (snd (process_file env (outputFolderName st) f []))) (files st))
     \<and> z = fold (\<lambda>e. zip_file (fst e) (snd e)) (zip_entries evs) []"
proof -
  from handleConvert_success_D [OF assms]
  have ne: "files st \<noteq> []" and nm: "trim (outputFolderName st) \<noteq> []"
    and ok: "\<forall>h\<in>set (files st). completes env h"
    by simp_all
  from handleConvert_all_complete [OF ne nm ok]
  obtain evs z tl where run: "snd (handleConvert env st) =
       [SetIsConverting True, SetError None, SetSuccess False, SetProgress 0] @ evs
         @ GenerateAsync z # tl"
     and tl: "tl = (case generateAsync env z of
               Inl e \<Rightarrow> [SetError (Some (error_text e)), SetIsConverting False]
             | Inr b \<Rightarrow> [SaveAs b (trim (outputFolderName st) @ ''.zip''), SetSuccess True,
                         SetIsConverting False])"
     and e: "list_all loop_event evs"
       "zip_entries evs =
          concat (map (\<lambda>f. zip_entries (snd (process_file env (outputFolderName st) f []))) (files st))"
       "z = fold (\<lambda>e. zip_file (fst e) (snd e)) (zip_entries evs) []"
    by force
  show ?thesis
  proof (cases "generateAsync env z")
    case (Inl err)
    with assms loop_event_only(2) [OF e(1), of True] have False
      unfolding run tl by simp
    then show ?thesis ..
  next
    case (Inr blob)
    with run tl e show ?thesis by auto
  qed
qed

lemma handleConvert_archive:
  assumes "SetSuccess True \<in> set (snd (handleConvert env st))"
  shows "\<exists>z blob. generated (snd (handleConvert env st)) = [z]
     \<and> saved (snd (handleConvert env st)) = [(blob, trim (outputFolderName st) @ ''.zip'')]
     \<and> generateAsync env z = Inr blob
     \<and> z = fold (\<lambda>e. zip_file (fst e) (snd e))
           (concat (map (\<lambda>f. zip_entries (snd (process_file env (outputFolderName st) f []))) (files st))) []"
proof -
  from handleConvert_success_trace [OF assms]
  obtain evs z blob where run: "snd (handleConvert env st) =
       [SetIsConverting True, SetError None, SetSuccess False, SetProgress 0] @ evs
         @ [GenerateAsync z, SaveAs blob (trim (outputFolderName st) @ ''.zip''),
            SetSuccess True, SetIsConverting False]"
    and g: "generateAsync env z = Inr blob" and e: "list_all loop_event evs"
    and z: "zip_entries evs =
          concat (map (\<lambda>f. zip_entries (snd (process_file env (outputFolderName st) f []))) (files st))"
       "z = fold (\<lambda>e. zip_file (fst e) (snd e)) (zip_entries evs) []"
    by blast
  have "generated (snd (handleConvert env st)) = [z]"
    "saved (snd (handleConvert env st)) = [(blob, trim (outputFolderName st) @ ''.zip'')]"
    unfolding run using loop_event_not_delivered [OF e] by simp_all
  with g z show ?thesis by simp
qed

lemma progress_pct_2: "progress_pct 0 (Suc (Suc 0)) = 50" "progress_pct (Suc 0) (Suc (Suc 0)) = 100"
  by code_simp+


text \<open>
  C1 (as amended). A file whose workbook has exactly one sheet, and whose relative path
  consists of a first segment, any intermediate segments and a leaf with an extension,
  makes exactly one \<open>zip.file\<close> call. Its path has the trimmed folder name as its first
  segment, the intermediate segments unchanged, and the leaf with its extension replaced
  by \<open>.csv\<close>. In a successful run the archive that is generated and saved has exactly
  one entry at that path; the entry holds the CSV text of the file when no later file of
  the run is given the same path, and when the file is the only one of the run the
  archive is exactly this entry. For \<open>A/B/report.xlsx\<close> and the name \<open>out\<close> the path
  is \<open>out/B/report.csv\<close>.
\<close>

theorem single_sheet_entry:
  assumes wb: "content f = Inr d" "XLSX_read env d = Inr wb" "SheetNames wb = [s]"
      "sheet_to_csv env (Sheets wb s) = Inr csv"
    and path: "webkitRelativePath f = join CHR ''/'' (seg0 # mids @ [stem @ CHR ''.'' # ext])"
    and segs: "CHR ''/'' \<notin> set seg0" "\<forall>m\<in>set mids. CHR ''/'' \<notin> set m" "CHR ''/'' \<notin> set stem"
    and ext: "ext \<noteq> []" "list_all not_slash_dot ext"
  shows "process_file env r f z =
           (Inr (zip_file (join CHR ''/'' (trim r # mids @ [stem @ ''.csv''])) csv z),
            [ArrayBuffer f, XLSXRead d,
             ZipFile (join CHR ''/'' (trim r # mids @ [stem @ ''.csv''])) csv])
     \<and> (SetSuccess True \<in> set (snd (handleConvert env st)) \<and> files st = pre @ f # post \<longrightarrow>
          zip_entries (snd (handleConvert env st)) =
            concat (map (\<lambda>h. zip_entries (snd (process_file env (outputFolderName st) h []))) pre)
            @ [(join CHR ''/'' (trim (outputFolderName st) # mids @ [stem @ ''.csv'']), csv)]
            @ concat (map (\<lambda>h. zip_entries (snd (process_file env (outputFolderName st) h []))) post)
        \<and> (\<exists>a blob.
              generated (snd (handleConvert env st)) = [a]
            \<and> saved (snd (handleConvert env st)) = [(blob, trim (outputFolderName st) @ ''.zip'')]
            \<and> generateAsync env a = Inr blob
            \<and> length (filter (\<lambda>e. fst e = join CHR ''/'' (trim (outputFolderName st) # mids @ [stem @ ''.csv''])) a) = 1
            \<and> (join CHR ''/'' (trim (outputFolderName st) # mids @ [stem @ ''.csv''])
                  \<notin> fst ` set (concat (map (\<lambda>h. zip_entries (snd (process_file env (outputFolderName st) h []))) post))
                \<longrightarrow> (join CHR ''/'' (trim (outputFolderName st) # mids @ [stem @ ''.csv'']), csv) \<in> set a)
            \<and> (pre = [] \<and> post = [] \<longrightarrow>
                  a = [(join CHR ''/'' (trim (outputFolderName st) # mids @ [stem @ ''.csv'']), csv)])))"
proof -
  have base: "newPathBase r f = join CHR ''/'' (trim r # mids) @ CHR ''/'' # stem @ CHR ''.'' # ext" for r
  proof -
    from ext segs have "\<forall>p\<in>set (mids @ [stem @ CHR ''.'' # ext]). CHR ''/'' \<notin> set p"
      by (auto simp: list_all_iff not_slash_dot_def)
    from newPathBase_segments [OF path segs(1) this] show ?thesis
      by (simp only: join_leaf)
  qed
  have csv_path: "replace_ext (newPathBase r f) ''.csv'' = join CHR ''/'' (trim r # mids @ [stem @ ''.csv''])" for r
  proof -
    have "replace_ext ((join CHR ''/'' (trim r # mids) @ CHR ''/'' # stem) @ CHR ''.'' # ext) ''.csv''
       = (join CHR ''/'' (trim r # mids) @ CHR ''/'' # stem) @ ''.csv''"
      by (rule replace_ext_append [OF ext]) simp
    then show ?thesis
      by (simp add: base join_leaf)
  qed
  have step: "process_file env r f z =
           (Inr (zip_file (join CHR ''/'' (trim r # mids @ [stem @ ''.csv''])) csv z),
            [ArrayBuffer f, XLSXRead d,
             ZipFile (join CHR ''/'' (trim r # mids @ [stem @ ''.csv''])) csv])" for r z
    using wb by (simp add: process_file_def Let_def csv_path)
  define P where "P = join CHR ''/'' (trim (outputFolderName st) # mids @ [stem @ ''.csv''])"
  define E1 where
    "E1 = concat (map (\<lambda>h. zip_entries (snd (process_file env (outputFolderName st) h []))) pre)"
  define E2 where
    "E2 = concat (map (\<lambda>h. zip_entries (snd (process_file env (outputFolderName st) h []))) post)"
  have run: "zip_entries (snd (handleConvert env st)) = E1 @ [(P, csv)] @ E2
        \<and> (\<exists>a blob.
              generated (snd (handleConvert env st)) = [a]
            \<and> saved (snd (handleConvert env st)) = [(blob, trim (outputFolderName st) @ ''.zip'')]
            \<and> generateAsync env a = Inr blob
            \<and> length (filter (\<lambda>e. fst e = P) a) = 1
            \<and> (P \<notin> fst ` set E2 \<longrightarrow> (P, csv) \<in> set a)
            \<and> (pre = [] \<and> post = [] \<longrightarrow> a = [(P, csv)]))"
    if ok: "SetSuccess True \<in> set (snd (handleConvert env st))" and fs: "files st = pre @ f # post"
  proof -
    have all: "concat (map (\<lambda>h. zip_entries (snd (process_file env (outputFolderName st) h []))) (files st))
        = E1 @ (P, csv) # E2"
      unfolding fs E1_def E2_def P_def by (simp add: step)
    from handleConvert_archive [OF ok] obtain a blob where
      g: "generated (snd (handleConvert env st)) = [a]"
        "saved (snd (handleConvert env st)) = [(blob, trim (outputFolderName st) @ ''.zip'')]"
        "generateAsync env a = Inr blob"
      and a: "a = fold (\<lambda>e. zip_file (fst e) (snd e)) (E1 @ (P, csv) # E2) []"
      unfolding all by blast
    have "distinct (map fst a)"
      unfolding a by (rule archive_distinct) simp
    moreover have "P \<in> fst ` set a"
      unfolding a archive_keys by simp
    ultimately have one: "length (filter (\<lambda>e. fst e = P) a) = 1"
      by (rule one_entry)
    have last: "(P, csv) \<in> set a" if "P \<notin> fst ` set E2"
      unfolding a using that by (rule archive_last_write)
    have only: "a = [(P, csv)]" if "pre = [] \<and> post = []"
      unfolding a using that by (simp add: E1_def E2_def)
    have "zip_entries (snd (handleConvert env st)) = E1 @ [(P, csv)] @ E2"
      unfolding handleConvert_zip_entries [OF ok] all by simp
    with g one last only show ?thesis by blast
  qed
  from step [of r z] run show ?thesis
    unfolding P_def E1_def E2_def by blast
qed

theorem single_sheet_entry_witness:
  "SheetNames \<lparr>SheetNames = [''Sheet1''], Sheets = [''Sheet1'' \<mapsto> ''a,b'']\<rparr> = [''Sheet1'']
   \<and> webkitRelativePath example_report = join CHR ''/'' (''A'' # [''B''] @ [''report'' @ CHR ''.'' # ''xlsx''])
   \<and> SetSuccess True \<in> set (snd (handleConvert example_env (example_state [example_report] ''out'')))
   \<and> process_file example_env ''out'' example_report [] =
        (Inr [(''out/B/report.csv'', ''a,b'')],
         [ArrayBuffer example_report, XLSXRead [1], ZipFile ''out/B/report.csv'' ''a,b''])
   \<and> zip_entries (snd (handleConvert example_env (example_state [example_report] ''out'')))
        = [(''out/B/report.csv'', ''a,b'')]
   \<and> generated (snd (handleConvert example_env (example_state [example_report] ''out'')))
        = [[(''out/B/report.csv'', ''a,b'')]]"
proof -
  let ?wb = "\<lparr>SheetNames = [''Sheet1''], Sheets = [''Sheet1'' \<mapsto> ''a,b'']\<rparr>"
  let ?st = "example_state [example_report] ''out''"
  have h1: "content example_report = Inr [1]"
    by (simp add: example_report_def example_file_def)
  have h2: "XLSX_read example_env [1] = Inr ?wb"
    by (simp add: example_env_def example_read_def)
  have h3: "SheetNames ?wb = [''Sheet1'']" by simp
  have h4: "sheet_to_csv example_env (Sheets ?wb ''Sheet1'') = Inr ''a,b''"
    by (simp add: example_env_def)
  have h5: "webkitRelativePath example_report
      = join CHR ''/'' (''A'' # [''B''] @ [''report'' @ CHR ''.'' # ''xlsx''])"
    by (simp add: example_report_def example_file_def)
  have h6: "CHR ''/'' \<notin> set ''A''" "\<forall>m\<in>set [''B'']. CHR ''/'' \<notin> set m" "CHR ''/'' \<notin> set ''report''"
    by simp_all
  have h7: "''xlsx'' \<noteq> []" "list_all not_slash_dot ''xlsx''"
    by (simp_all add: not_slash_dot_def)
  have run: "SetSuccess True \<in> set (snd (handleConvert example_env ?st))"
    by (simp add: example_single_file_run)
  have fs: "files ?st = [] @ example_report # []" "outputFolderName ?st = ''out''"
    by (simp_all add: example_state_def)
  have tr: "trim ''out'' = ''out''"
    by (simp add: trim_def is_white_def)
  from single_sheet_entry [OF h1 h2 h3 h4 h5 h6 h7, of "''out''" "[]" ?st "[]" "[]"] run fs tr h3 h5
  show ?thesis by auto
qed


text \<open>
  C1 as stated does not hold: in the successful run over \<open>A/B/report.xlsx\<close> and
  \<open>A/B/report.xls\<close> with the name \<open>out\<close>, the archive that is generated has the single
  entry \<open>out/B/report.csv\<close> with the text of the second file; the entry of
  \<open>A/B/report.xlsx\<close> is not in it.
\<close>

theorem later_file_replaces_entry:
  "SetSuccess True \<in> set (snd (handleConvert example_env
        (example_state [example_report, example_report_xls] ''out'')))
   \<and> XLSX_read example_env [1] = Inr \<lparr>SheetNames = [''Sheet1''], Sheets = [''Sheet1'' \<mapsto> ''a,b'']\<rparr>
   \<and> zip_entries (snd (process_file example_env ''out'' example_report []))
        = [(''out/B/report.csv'', ''a,b'')]
   \<and> generated (snd (handleConvert example_env
        (example_state [example_report, example_report_xls] ''out'')))
        = [[(''out/B/report.csv'', ''x,y'')]]
   \<and> (''out/B/report.csv'', ''a,b'') \<notin> set (hd (generated (snd (handleConvert example_env
        (example_state [example_report, example_report_xls] ''out'')))))"
proof -
  have "snd (handleConvert example_env
        (example_state [example_report, example_report_xls] ''out'')) =
     [SetIsConverting True, SetError None, SetSuccess False, SetProgress 0,
      ArrayBuffer example_report, XLSXRead [1],
      ZipFile ''out/B/report.csv'' ''a,b'', SetProgress 50,
      ArrayBuffer example_report_xls, XLSXRead [4],
      ZipFile ''out/B/report.csv'' ''x,y'', SetProgress 100,
      GenerateAsync [(''out/B/report.csv'', ''x,y'')], SaveAs [3] ''out.zip'',
      SetSuccess True, SetIsConverting False]"
    by (simp add: handleConvert_def example_state_def example_report_def example_report_xls_def
        example_file_def example_env_def example_read_def process_file_def newPathBase_def
        set_first_def trim_def is_white_def replace_ext_def not_slash_dot_def progress_pct_2 Let_def)
  moreover have "zip_entries (snd (process_file example_env ''out'' example_report []))
        = [(''out/B/report.csv'', ''a,b'')]"
    by (simp add: example_report_def example_file_def example_env_def example_read_def
        process_file_def newPathBase_def set_first_def trim_def is_white_def replace_ext_def
        not_slash_dot_def Let_def)
  moreover have "XLSX_read example_env [1]
      = Inr \<lparr>SheetNames = [''Sheet1''], Sheets = [''Sheet1'' \<mapsto> ''a,b'']\<rparr>"
    by (simp add: example_env_def example_read_def)
  ultimately show ?thesis by simp
qed


subsection \<open>A workbook without sheets\<close>

text \<open>
  C10 (as amended). A file that decodes to a workbook with no sheet names does not make
  the run fail: its iteration takes the branch for several sheets, whose loop body never
  runs, so the archive object is unchanged and no entry is added; the loop goes on to
  call \<open>setProgress\<close> for this file, with \<open>Math.round(((i + 1) / n) * 100)\<close>, and to
  continue with the next file. That value is never below a value set before it, is
  above 0 when the run has at most 200 files, and is 100 when the file is the last one;
  for the first file it is above 0 exactly when there are at most 200 files. A run that
  contains such a file ends in success, with the progress at 100, when the other files
  are converted and the archive is generated.
\<close>

theorem zero_sheet_workbook:
  assumes "content f = Inr d" "XLSX_read env d = Inr wb" "SheetNames wb = []"
  shows "process_file env r f z = (Inr z, [ArrayBuffer f, XLSXRead d])
     \<and> convert_files env r n i (f # rest) z (st, tr) =
         convert_files env r n (Suc i) rest z
           (st\<lparr>progress := progress_pct i n\<rparr>,
            tr @ [ArrayBuffer f, XLSXRead d, SetProgress (progress_pct i n)])
     \<and> (\<forall>j\<le>i. progress_pct j n \<le> progress_pct i n)
     \<and> (0 < n \<and> n \<le> 200 \<longrightarrow> 0 < progress_pct i n)
     \<and> (Suc i = n \<longrightarrow> progress_pct i n = 100)
     \<and> (i = 0 \<and> 0 < n \<longrightarrow> (0 < progress_pct i n \<longleftrightarrow> n \<le> 200))
     \<and> (f \<in> set (files st') \<and> trim (outputFolderName st') \<noteq> []
          \<and> (\<forall>h\<in>set (files st'). h \<noteq> f \<longrightarrow> completes env h)
          \<and> (\<forall>a. \<not> isl (generateAsync env a))
        \<longrightarrow> SetSuccess True \<in> set (snd (handleConvert env st'))
          \<and> success (fst (handleConvert env st'))
          \<and> error (fst (handleConvert env st')) = None
          \<and> read_files (snd (handleConvert env st')) = files st'
          \<and> progress_events (snd (handleConvert env st'))
               = 0 # map (\<lambda>j. progress_pct j (length (files st'))) [0..<length (files st')]
          \<and> progress (fst (handleConvert env st')) = 100)"
proof -
  have step: "process_file env r f z = (Inr z, [ArrayBuffer f, XLSXRead d])" for r z
    using assms by (simp add: process_file_def)
  have loop: "convert_files env r n i (f # rest) z (st, tr) =
         convert_files env r n (Suc i) rest z
           (st\<lparr>progress := progress_pct i n\<rparr>,
            tr @ [ArrayBuffer f, XLSXRead d, SetProgress (progress_pct i n)])"
    by (simp add: step Let_def)
  have ok: "completes env f"
    by (simp add: completes_def step)
  have mono: "\<forall>j\<le>i. progress_pct j n \<le> progress_pct i n"
    by (simp add: progress_pct_mono)
  have pos: "0 < progress_pct i n" if "0 < n \<and> n \<le> 200"
  proof -
    from that have "0 < progress_pct 0 n" by (simp add: progress_pct_first)
    with progress_pct_mono [of 0 i n] show ?thesis by simp
  qed
  have last: "progress_pct i n = 100" if "Suc i = n"
    using that progress_pct_last [of n] by auto
  have first: "0 < progress_pct i n \<longleftrightarrow> n \<le> 200" if "i = 0 \<and> 0 < n"
    using that progress_pct_first [of n] by simp
  have "SetSuccess True \<in> set (snd (handleConvert env st'))
          \<and> success (fst (handleConvert env st'))
          \<and> error (fst (handleConvert env st')) = None
          \<and> read_files (snd (handleConvert env st')) = files st'
          \<and> progress_events (snd (handleConvert env st'))
               = 0 # map (\<lambda>j. progress_pct j (length (files st'))) [0..<length (files st')]
          \<and> progress (fst (handleConvert env st')) = 100"
    if run: "f \<in> set (files st')" "trim (outputFolderName st') \<noteq> []"
      "\<forall>h\<in>set (files st'). h \<noteq> f \<longrightarrow> completes env h" "\<forall>a. \<not> isl (generateAsync env a)"
  proof -
    from run(1) have ne: "files st' \<noteq> []" by auto
    have all: "\<forall>h\<in>set (files st'). completes env h"
    proof
      fix h assume "h \<in> set (files st')"
      with run(3) ok show "completes env h" by (cases "h = f") simp_all
    qed
    from handleConvert_all_complete [OF ne run(2) all]
    obtain evs a tl where res: "handleConvert env st' =
      (st'\<lparr>isConverting := False,
          error := (case generateAsync env a of Inl e \<Rightarrow> Some (error_text e) | Inr b \<Rightarrow> None),
          success := \<not> isl (generateAsync env a),
          progress := progress_pct (length (files st') - 1) (length (files st'))\<rparr>,
       [SetIsConverting True, SetError None, SetSuccess False, SetProgress 0] @ evs
         @ GenerateAsync a # tl)"
      and tl: "tl = (case generateAsync env a of
               Inl e \<Rightarrow> [SetError (Some (error_text e)), SetIsConverting False]
             | Inr b \<Rightarrow> [SaveAs b (trim (outputFolderName st') @ ''.zip''), SetSuccess True,
                         SetIsConverting False])"
      and e: "read_files evs = files st'"
        "progress_events evs = map (\<lambda>j. progress_pct j (length (files st'))) [0..<length (files st')]"
      by blast
    from run(4) obtain b where b: "generateAsync env a = Inr b"
      by (cases "generateAsync env a") (auto dest: spec [of _ a])
    from ne have "progress_pct (length (files st') - 1) (length (files st')) = 100"
      by (intro progress_pct_last) simp
    then show ?thesis
      unfolding res tl b using e by simp
  qed
  with step [of r z] loop mono pos last first show ?thesis by simp
qed

theorem zero_sheet_workbook_witness:
  "SheetNames \<lparr>SheetNames = [], Sheets = (Map.empty :: string \<Rightarrow> string option)\<rparr> = []
   \<and> XLSX_read example_env [0] = Inr \<lparr>SheetNames = [], Sheets = Map.empty\<rparr>
   \<and> process_file example_env ''out'' example_empty [] = (Inr [], [ArrayBuffer example_empty, XLSXRead [0]])
   \<and> SetSuccess True \<in> set (snd (handleConvert example_env (example_state [example_empty, example_report] ''out'')))
   \<and> read_files (snd (handleConvert example_env (example_state [example_empty, example_report] ''out'')))
       = [example_empty, example_report]
   \<and> progress_events (snd (handleConvert example_env (example_state [example_empty, example_report] ''out'')))
       = [0, 50, 100]
   \<and> progress (fst (handleConvert example_env (example_state [example_empty, example_report] ''out''))) = 100
   \<and> 0 < progress_pct 0 2"
proof -
  let ?wb = "\<lparr>SheetNames = [], Sheets = (Map.empty :: string \<Rightarrow> string option)\<rparr>"
  let ?st = "example_state [example_empty, example_report] ''out''"
  have h1: "content example_empty = Inr [0]"
    by (simp add: example_empty_def example_file_def)
  have h2: "XLSX_read example_env [0] = Inr ?wb"
    by (simp add: example_env_def example_read_def)
  have h3: "SheetNames ?wb = []" by simp
  have g1: "example_empty \<in> set (files ?st)" "files ?st = [example_empty, example_report]"
    by (simp_all add: example_state_def)
  have g2: "trim (outputFolderName ?st) \<noteq> []"
    by (simp add: example_state_def trim_def is_white_def)
  have "completes example_env example_report"
    by (simp add: completes_iff sheets_ok_def example_report_def example_file_def
          example_env_def example_read_def)
  then have g3: "\<forall>h\<in>set (files ?st). h \<noteq> example_empty \<longrightarrow> completes example_env h"
    by (simp add: example_state_def)
  have g4: "\<forall>a. \<not> isl (generateAsync example_env a)"
    by (simp add: example_env_def)
  have upt: "[0..<Suc (Suc 0)] = [0, Suc 0]"
    by (simp add: upt_rec)
  have n: "(0::nat) < 2 \<and> (2::nat) \<le> 200" by simp
  from zero_sheet_workbook [OF h1 h2 h3, of "''out''" "[]" 2 0 "[]" ?st "[]" ?st] g1 g2 g3 g4 h2 h3 n
  show ?thesis by (simp add: upt progress_pct_2)
qed


text \<open>
  C10 as stated does not hold: when a file without sheets is the first of 201 files,
  the run succeeds, and the value set for that file is 0, the value of the reset before
  it.
\<close>

theorem zero_sheet_progress_stays:
  "content example_empty = Inr [0]
   \<and> XLSX_read example_env [0] = Inr \<lparr>SheetNames = [], Sheets = Map.empty\<rparr>
   \<and> files (example_state (example_empty # example_many 200) ''out'') ! 0 = example_empty
   \<and> SetSuccess True \<in> set (snd (handleConvert example_env
        (example_state (example_empty # example_many 200) ''out'')))
   \<and> progress_events (snd (handleConvert example_env
        (example_state (example_empty # example_many 200) ''out''))) ! 0 = 0
   \<and> progress_events (snd (handleConvert example_env
        (example_state (example_empty # example_many 200) ''out''))) ! 1 = 0"
proof -
  let ?st = "example_state (example_empty # example_many 200) ''out''"
  have c: "content example_empty = Inr [0]"
    by (simp add: example_empty_def example_file_def)
  have d: "XLSX_read example_env [0] = Inr \<lparr>SheetNames = [], Sheets = Map.empty\<rparr>"
    by (simp add: example_env_def example_read_def)
  have fs: "files ?st = example_empty # example_many 200" by (simp add: example_state_def)
  have len: "length (files ?st) = 201" by (simp add: example_state_def example_many_def)
  have h1: "files ?st \<noteq> []" by (simp add: fs)
  have h2: "trim (outputFolderName ?st) \<noteq> []"
    by (simp add: example_state_def trim_def is_white_def)
  have ok: "\<forall>h\<in>set (files ?st). completes example_env h"
    using completes_example_many [of 200] completes_example(3) by (simp add: fs)
  have gen: "\<forall>a. \<not> isl (generateAsync example_env a)"
    by (simp add: example_env_def)
  have h3: "SetSuccess True \<in> set (snd (handleConvert example_env ?st))"
    using h1 h2 ok gen by (rule handleConvert_success_I)
  have "progress_events (snd (handleConvert example_env ?st))
      = 0 # map (\<lambda>j. progress_pct j 201) [0..<201]"
    unfolding handleConvert_progress_events [OF h3] len ..
  then show ?thesis using c d fs h3 by (simp add: progress_pct_201)
qed

end
